theory Spec2Isabelle
  imports Complex_Main "HOL-Library.Word"
begin

unbundle bit_operations_syntax

section \<open>OpenFileGDB table reader: a model of filegdbtable.cpp\<close>

text \<open>
  The definitions below follow \<^verbatim>\<open>ogr/ogrsf_frmts/openfilegdb/filegdbtable.cpp\<close>.
  Bytes are \<open>8 word\<close>, \<open>GUInt32\<close> is \<open>32 word\<close>, \<open>GUIntBig\<close> and \<open>GIntBig\<close> are
  \<open>64 word\<close> (read with \<open>unat\<close> or \<open>sint\<close>). A pointer into a buffer is the index of
  the byte it points to; the buffer itself is a list of bytes.
\<close>

type_synonym byte = "8 word"

subsection \<open>Diagnostics\<close>

text \<open>
  \<open>CPLError(CE_Warning, ...)\<close>, \<open>CPLError(CE_Failure, ...)\<close> and \<open>CPLDebug(...)\<close> append to a
  log; only the class of each message is kept.
\<close>

datatype CPLErr = CE_Debug | CE_Warning | CE_Failure

subsection \<open>Open(): reconciling the record counts of .gdbtable and .gdbtablx\<close>

text \<open>
  Lines 918-965 of \<open>FileGDBTable::Open\<close>. \<open>bTableX\<close> is \<open>m_fpTableX != nullptr\<close>,
  \<open>bUseRecordCount\<close> is the configuration option \<open>OPENFILEGDB_USE_GDBTABLE_RECORD_COUNT\<close>
  (default \<open>false\<close>). The result is the new \<open>m_nTotalRecordCount\<close>, the new
  \<open>m_nValidRecordCount\<close> and the messages emitted. \<open>DEBUG_VERBOSE\<close> is not defined, so
  the branch it guards is absent.
\<close>

definition Open_reconcile :: "bool \<Rightarrow> bool \<Rightarrow> int \<Rightarrow> int \<Rightarrow> int \<times> int \<times> CPLErr list" where
  "Open_reconcile bTableX bUseRecordCount m_nTotalRecordCount m_nValidRecordCount =
     (if bTableX then
        (if m_nValidRecordCount > m_nTotalRecordCount then
           (if bUseRecordCount then
              (m_nValidRecordCount, m_nValidRecordCount, [CE_Debug])
            else
              (m_nTotalRecordCount, m_nTotalRecordCount, [CE_Warning]))
         else (m_nTotalRecordCount, m_nValidRecordCount, []))
      else (m_nTotalRecordCount, m_nValidRecordCount, []))"

subsection \<open>Buffers\<close>

text \<open>
  \<open>byte_at buf i\<close> is \<open>buf[i]\<close>. The C++ reads of this file stay inside the buffer or its
  \<open>ZEROES_AFTER_END_OF_BUFFER\<close> padding; a read past the list is given the padding's value
  0, and the theorems say where an index is known to be inside.
\<close>

definition byte_at :: "byte list \<Rightarrow> nat \<Rightarrow> byte" where
  "byte_at buf i = (if i < length buf then buf ! i else 0)"

subsection \<open>ReadVarUInt()\<close>

text \<open>
  The three control types of lines 204-226. \<open>verbose_error\<close> only chooses between
  \<open>returnErrorIf\<close> (which prints through \<open>FileGDBTablePrintError\<close> and returns
  \<open>errorRetValue\<close>) and a plain \<open>return FALSE\<close>, so the value returned is the same.
\<close>

datatype ControlType =
  ControlTypeVerboseErrorTrue | ControlTypeVerboseErrorFalse | ControlTypeNone

fun check_bounds :: "ControlType \<Rightarrow> bool" where
  "check_bounds ControlTypeVerboseErrorTrue = True"
| "check_bounds ControlTypeVerboseErrorFalse = True"
| "check_bounds ControlTypeNone = False"

fun verbose_error :: "ControlType \<Rightarrow> bool" where
  "verbose_error ControlTypeVerboseErrorTrue = True"
| "verbose_error ControlTypeVerboseErrorFalse = False"
| "verbose_error ControlTypeNone = False"

text \<open>
  The \<open>while (true)\<close> loop of lines 169-201. \<open>OutType\<close> is \<open>'a word\<close> and
  \<open>sizeof(OutType) * 8\<close> is \<open>LENGTH('a)\<close>. The result is the return value, the
  cursor \<open>pabyIter\<close> and \<open>nOutVal\<close>, both passed by reference in the source.
\<close>

function ReadVarUInt_loop ::
  "ControlType \<Rightarrow> byte list \<Rightarrow> nat \<Rightarrow> nat \<Rightarrow> nat \<Rightarrow> 'a::len word \<Rightarrow> nat \<Rightarrow> 'a word
     \<Rightarrow> bool \<times> nat \<times> 'a word" where
  "ReadVarUInt_loop ct buf pabyEnd pabyLocalIter nShift nVal pabyIter nOutVal =
     (if check_bounds ct \<and> pabyLocalIter \<ge> pabyEnd then (False, pabyIter, nOutVal)
      else
        (let b = (ucast (byte_at buf pabyLocalIter) :: 'a word);
             nVal' = nVal OR push_bit nShift (b AND 0x7F)
         in if b AND 0x80 = 0 then (True, pabyLocalIter + 1, nVal')
            else if nShift + 7 \<ge> LENGTH('a) then (False, pabyLocalIter + 1, nVal')
            else ReadVarUInt_loop ct buf pabyEnd (pabyLocalIter + 1) (nShift + 7) nVal'
                   pabyIter nOutVal))"
  by pat_completeness auto
termination
  by (relation "measure (\<lambda>(ct, buf, pabyEnd, pabyLocalIter, nShift, nVal, pabyIter, nOutVal).
                  size nVal - nShift)")
     (auto simp: word_size)

declare ReadVarUInt_loop.simps [simp del]

definition ReadVarUInt ::
  "ControlType \<Rightarrow> byte list \<Rightarrow> nat \<Rightarrow> nat \<Rightarrow> 'a::len word \<Rightarrow> bool \<times> nat \<times> 'a word" where
  "ReadVarUInt ct buf pabyIter pabyEnd nOutVal =
     (if check_bounds ct \<and> pabyIter \<ge> pabyEnd then (False, pabyIter, nOutVal)
      else
        (let b = (ucast (byte_at buf pabyIter) :: 'a word)
         in if b AND 0x80 = 0 then (True, pabyIter + 1, b)
            else ReadVarUInt_loop ct buf pabyEnd (pabyIter + 1) 7 (b AND 0x7F)
                   pabyIter nOutVal))"

definition ReadVarUInt32 :: "byte list \<Rightarrow> nat \<Rightarrow> nat \<Rightarrow> 32 word \<Rightarrow> bool \<times> nat \<times> 32 word" where
  "ReadVarUInt32 buf pabyIter pabyEnd nOutVal =
     ReadVarUInt ControlTypeVerboseErrorTrue buf pabyIter pabyEnd nOutVal"

definition ReadVarUInt32Silent ::
  "byte list \<Rightarrow> nat \<Rightarrow> nat \<Rightarrow> 32 word \<Rightarrow> bool \<times> nat \<times> 32 word" where
  "ReadVarUInt32Silent buf pabyIter pabyEnd nOutVal =
     ReadVarUInt ControlTypeVerboseErrorFalse buf pabyIter pabyEnd nOutVal"

text \<open>The unchecked readers pass \<open>pabyEnd = nullptr\<close> and drop the return value.\<close>

definition ReadVarUInt32NoCheck :: "byte list \<Rightarrow> nat \<Rightarrow> 32 word \<Rightarrow> nat \<times> 32 word" where
  "ReadVarUInt32NoCheck buf pabyIter nOutVal =
     snd (ReadVarUInt ControlTypeNone buf pabyIter 0 nOutVal)"

definition ReadVarUInt64NoCheck :: "byte list \<Rightarrow> nat \<Rightarrow> 64 word \<Rightarrow> nat \<times> 64 word" where
  "ReadVarUInt64NoCheck buf pabyIter nOutVal =
     snd (ReadVarUInt ControlTypeNone buf pabyIter 0 nOutVal)"

text \<open>
  Modelled from the spec: the encoder is not part of this source file. The specification
  describes a varuint as ``a base-128, little-endian, continuation-bit-terminated
  variable-length integer encoding'' with the ``continuation bit = top bit of each byte'':
  seven bits per byte, least significant group first, the top bit set on every byte but the
  last.
\<close>

function encode_varuint :: "64 word \<Rightarrow> byte list" where
  "encode_varuint v =
     (if v < 128 then [ucast v]
      else (ucast (v AND 0x7F) OR 0x80) # encode_varuint (drop_bit 7 v))"
  by pat_completeness auto
termination
proof (relation "measure unat")
  show "wf (measure unat)" by simp
next
  fix v :: "64 word"
  assume "\<not> v < 128"
  then have "v \<noteq> 0" by auto
  then have "unat v \<noteq> 0" by (simp add: unat_eq_0)
  then have "unat v div 2 ^ 7 < unat v" by simp
  then show "(drop_bit 7 v, v) \<in> measure unat"
    by (simp add: drop_bit_eq_div unat_div)
qed

declare encode_varuint.simps [simp del]

text \<open>The continuation bit of a byte of the stream.\<close>

definition has_continuation :: "byte \<Rightarrow> bool" where
  "has_continuation b \<longleftrightarrow> b AND 0x80 \<noteq> 0"

subsection \<open>ReadVarIntAndAddNoCheck() and the coordinate arrays\<close>





text \<open>
  \<open>SanitizeScale\<close> (lines 72-77); \<open>std::numeric_limits<double>::min()\<close> is \<open>2\<^sup>-\<^sup>1\<^sup>0\<^sup>2\<^sup>2\<close>.
\<close>

definition DBL_MIN :: real where
  "DBL_MIN = 1 / 2 ^ 1022"

definition SanitizeScale :: "real \<Rightarrow> real" where
  "SanitizeScale dfVal = (if dfVal = 0 then DBL_MIN else dfVal)"















text \<open>
  Modelled from the spec: the encoder of a delta is not part of this source file. The
  specification describes it as ``sign bit in second-highest bit of first byte'': the first
  byte holds the continuation flag in its top bit, the sign in the next bit and the six
  low bits of the magnitude, and ``later bytes are plain 7-bit continuations''. The delta
  \<open>d\<close> is a signed 64-bit value.
\<close>

definition delta_first_byte :: "64 word \<Rightarrow> bool \<Rightarrow> bool \<Rightarrow> byte" where
  "delta_first_byte m bNegative bContinue =
     ucast (m AND 0x3F) OR (if bNegative then 0x40 else 0) OR (if bContinue then 0x80 else 0)"

definition encode_varint_delta :: "64 word \<Rightarrow> byte list" where
  "encode_varint_delta d =
     (let bNegative = (sint d < 0);
          m = (if bNegative then - d else d)
      in if m < 64 then [delta_first_byte m bNegative False]
         else delta_first_byte m bNegative True # encode_varuint (drop_bit 6 m))"

text \<open>The running sums \<open>acc + d\<^sub>0\<close>, \<open>acc + d\<^sub>0 + d\<^sub>1\<close>, ... of a list of deltas, in 64-bit arithmetic.\<close>

fun running_sums :: "64 word \<Rightarrow> 64 word list \<Rightarrow> 64 word list" where
  "running_sums acc [] = []"
| "running_sums acc (d # ds) = (acc + d) # running_sums (acc + d) ds"

text \<open>
  The ordinates that a loop sets from the deltas \<open>ds\<close> when its accumulator starts at
  \<open>acc\<close>.
\<close>

definition ordinates_from :: "64 word \<Rightarrow> real \<Rightarrow> real \<Rightarrow> 64 word list \<Rightarrow> real list" where
  "ordinates_from acc scale origin ds =
     map (\<lambda>s. real_of_int (sint s) / scale + origin) (running_sums acc ds)"

text \<open>
  The coordinate stream of a geometry, as the specification has it: the deltas of X and
  Y interleaved point by point, then those of Z, then those of M, each delta encoded as
  above.
\<close>

definition encode_deltas :: "64 word list \<Rightarrow> byte list" where
  "encode_deltas ds = concat (map encode_varint_delta ds)"

definition encode_delta_pairs :: "(64 word \<times> 64 word) list \<Rightarrow> byte list" where
  "encode_delta_pairs ps =
     concat (map (\<lambda>(dx, dy). encode_varint_delta dx @ encode_varint_delta dy) ps)"


fun split_parts :: "nat list \<Rightarrow> 'a list \<Rightarrow> 'a list list" where
  "split_parts [] xs = []"
| "split_parts (n # ns) xs = take n xs # split_parts ns (drop n xs)"

subsection \<open>The table: fields, field values and members\<close>

text \<open>
  The field types and the raster types, as the source names them (the enumerations are
  declared in \<^verbatim>\<open>filegdbtable.h\<close>).
\<close>

datatype FileGDBFieldType =
    FGFT_UNDEFINED | FGFT_INT16 | FGFT_INT32 | FGFT_FLOAT32 | FGFT_FLOAT64 | FGFT_STRING
  | FGFT_DATETIME | FGFT_OBJECTID | FGFT_GEOMETRY | FGFT_BINARY | FGFT_RASTER | FGFT_GUID
  | FGFT_GLOBALID | FGFT_XML | FGFT_INT64 | FGFT_DATE | FGFT_TIME | FGFT_DATETIME_WITH_OFFSET

datatype RasterType = EXTERNAL | MANAGED | INLINE

record FileGDBField =
  m_eType :: FileGDBFieldType
  m_bNullable :: bool
  m_bReadAsDouble :: bool
  m_bHighPrecision :: bool
  m_eRasterType :: RasterType

text \<open>
  \<open>OGRField\<close> is a union; a value of the model says which member \<open>GetFieldValue\<close> wrote and
  from which bytes. The conversions that involve floating point
  (\<open>GetFloat32\<close>, \<open>GetFloat64\<close>, \<open>FileGDBDoubleDateToOGRDate\<close>, \<open>FileGDBDoubleTimeToOGRTime\<close>,
  \<open>FileGDBDateTimeWithOffsetToOGRDate\<close>) and \<open>ReadUTF16String\<close> are functions of their
  arguments alone, so the value keeps the arguments: the 32 or 64 bits of the number, the
  UTC offset, the bytes of the UTF-16 string.
\<close>

datatype OGRField =
    Field_Zero
  | Field_String "byte list"
  | Field_UTF16String "byte list"
  | Field_Integer int
  | Field_Integer64 int
  | Field_RealOfFloat32 "32 word"
  | Field_Real "64 word"
  | Field_RealMinusOffset "64 word" int
  | Field_Date "64 word" bool
  | Field_Time "64 word"
  | Field_DateTimeWithOffset "64 word" int
  | Field_GUID "byte list"
  | Field_Binary "byte list"

text \<open>
  The members of \<open>FileGDBTable\<close> that the functions below read or write. The two files
  are their contents; \<open>m_fpTableX = None\<close> is the null handle. \<open>m_pabyIterVals\<close> is an
  index into \<open>m_abyBuffer\<close>.
\<close>

record FileGDBTable =
  m_apoFields :: "FileGDBField list"
  m_bStringsAreUTF8 :: bool
  m_nNullableFieldsSizeInBytes :: nat
  m_fpTable :: "byte list"
  m_fpTableX :: "byte list option"
  m_bUpdate :: bool
  m_nFileSize :: nat
  m_nValidRecordCount :: int
  m_nTotalRecordCount :: int
  m_nTablxOffsetSize :: nat
  m_abyTablXBlockMap :: "byte list"
  m_nCountBlocksBeforeIBlockIdx :: int
  m_nCountBlocksBeforeIBlockValue :: int
  m_anFeatureOffsets :: "64 word list"
  m_bHasDeletedFeaturesListed :: bool
  m_bIsDeleted :: bool
  m_abyBuffer :: "byte list"
  m_nRowBlobLength :: "32 word"
  m_nHeaderBufferMaxSize :: "32 word"
  m_nRowBufferMaxSize :: "32 word"
  m_nCurRow :: int
  m_nLastCol :: int
  m_pabyIterVals :: nat
  m_iAccNullable :: nat
  m_bError :: bool
  m_nChSaved :: int
  m_sCurField :: OGRField
  m_bHasWarnedAboutHeaderRepair :: bool
  m_bDirtyHeader :: bool
  m_bDirtyIndices :: bool

text \<open>
  Modelled from the spec: the macros \<open>TEST_BIT\<close> and \<open>BIT_ARRAY_SIZE_IN_BYTES\<close> and the
  readers \<open>GetInt16\<close>, \<open>GetInt32\<close>, \<open>GetUInt32\<close>, \<open>GetInt64\<close>, \<open>GetFloat32\<close>,
  \<open>GetFloat64\<close> are declared in \<^verbatim>\<open>filegdbtable_priv.h\<close>, which is not among the sources.
  The specification fixes them: bit tests are ``least-significant-bit-first'', the
  nullable bitmask takes \<open>ceil(countNullable/8)\<close> bytes, and the format is ``little-endian
  throughout''. \<open>TEST_BIT\<close> is used on non-negative bit numbers only.
\<close>

definition TEST_BIT :: "byte list \<Rightarrow> nat \<Rightarrow> bool" where
  "TEST_BIT ar bit_no \<longleftrightarrow> byte_at ar (bit_no div 8) AND push_bit (bit_no mod 8) 1 \<noteq> 0"

definition BIT_ARRAY_SIZE_IN_BYTES :: "nat \<Rightarrow> nat" where
  "BIT_ARRAY_SIZE_IN_BYTES bitsize = (bitsize + 7) div 8"

definition le_bytes :: "byte list \<Rightarrow> 'a::len word" where
  "le_bytes bs = foldr (\<lambda>b w. ucast b OR push_bit 8 w) bs 0"

definition bytes_at :: "byte list \<Rightarrow> nat \<Rightarrow> nat \<Rightarrow> byte list" where
  "bytes_at buf p n = map (byte_at buf) [p..<p + n]"

definition GetInt16 :: "byte list \<Rightarrow> nat \<Rightarrow> int" where
  "GetInt16 buf p = sint (le_bytes (bytes_at buf p 2) :: 16 word)"

definition GetInt32 :: "byte list \<Rightarrow> nat \<Rightarrow> int" where
  "GetInt32 buf p = sint (le_bytes (bytes_at buf p 4) :: 32 word)"

definition GetUInt32 :: "byte list \<Rightarrow> nat \<Rightarrow> 32 word" where
  "GetUInt32 buf p = le_bytes (bytes_at buf p 4)"

definition GetInt64 :: "byte list \<Rightarrow> nat \<Rightarrow> int" where
  "GetInt64 buf p = sint (le_bytes (bytes_at buf p 8) :: 64 word)"

definition GetFloat32 :: "byte list \<Rightarrow> nat \<Rightarrow> 32 word" where
  "GetFloat32 buf p = le_bytes (bytes_at buf p 4)"

definition GetFloat64 :: "byte list \<Rightarrow> nat \<Rightarrow> 64 word" where
  "GetFloat64 buf p = le_bytes (bytes_at buf p 8)"

text \<open>
  \<open>VSIFSeekL(fp, off, SEEK_SET)\<close> followed by \<open>VSIFReadL(buf, n, 1, fp)\<close>. The read returns
  1 exactly when \<open>n\<close> bytes are there (\<open>Some\<close> of them); a short read is \<open>None\<close>.
\<close>

definition file_read :: "byte list \<Rightarrow> nat \<Rightarrow> nat \<Rightarrow> byte list option" where
  "file_read content off n =
     (if 0 < n \<and> off + n \<le> length content then Some (take n (drop off content)) else None)"

subsection \<open>GuessFeatureLocations(): the recovery scan\<close>

text \<open>\<open>MARK_DELETED\<close>, \<open>IS_DELETED\<close> and \<open>GET_OFFSET\<close> (lines 527-529): bit 63 of an offset.\<close>

definition MARK_DELETED :: "64 word \<Rightarrow> 64 word" where
  "MARK_DELETED x = x OR push_bit 63 1"

definition IS_DELETED :: "64 word \<Rightarrow> bool" where
  "IS_DELETED x \<longleftrightarrow> x AND push_bit 63 1 \<noteq> 0"

definition GET_OFFSET :: "64 word \<Rightarrow> 64 word" where
  "GET_OFFSET x = x AND NOT (push_bit 63 1)"

text \<open>
  The scanning loop, lines 566-595. \<open>IsLikelyFeatureAtOffset\<close> is a parameter \<open>isLikely\<close>:
  at an offset it answers \<open>None\<close> (no record there) or \<open>Some (nRequiredLength, bDeletedRecord)\<close>,
  and the loop advances by \<open>nSize = 4 + nRequiredLength\<close> as line 519 computes it. The
  local \<open>nInvalidRecords\<close> is returned with the table.
\<close>

function GuessFeatureLocations_scan ::
  "(nat \<Rightarrow> (nat \<times> bool) option) \<Rightarrow> bool \<Rightarrow> nat \<Rightarrow> int \<Rightarrow> FileGDBTable \<Rightarrow> int \<times> FileGDBTable"
  where
  "GuessFeatureLocations_scan isLikely bReportDeletedFeatures nOffset nInvalidRecords t =
     (if nOffset < m_nFileSize t then
        (case isLikely nOffset of
           None \<Rightarrow>
             GuessFeatureLocations_scan isLikely bReportDeletedFeatures (nOffset + 1)
               nInvalidRecords t
         | Some (nRequiredLength, bDeletedRecord) \<Rightarrow>
             (if bDeletedRecord then
                (if bReportDeletedFeatures then
                   GuessFeatureLocations_scan isLikely bReportDeletedFeatures
                     (nOffset + (4 + nRequiredLength)) nInvalidRecords
                     (t\<lparr>m_bHasDeletedFeaturesListed := True,
                        m_anFeatureOffsets :=
                          m_anFeatureOffsets t @ [MARK_DELETED (of_nat nOffset)]\<rparr>)
                 else
                   GuessFeatureLocations_scan isLikely bReportDeletedFeatures
                     (nOffset + (4 + nRequiredLength)) (nInvalidRecords + 1)
                     (t\<lparr>m_anFeatureOffsets := m_anFeatureOffsets t @ [0]\<rparr>))
              else
                GuessFeatureLocations_scan isLikely bReportDeletedFeatures
                  (nOffset + (4 + nRequiredLength)) nInvalidRecords
                  (t\<lparr>m_anFeatureOffsets := m_anFeatureOffsets t @ [of_nat nOffset]\<rparr>)))
      else (nInvalidRecords, t))"
  by pat_completeness auto

termination
  by (relation "measure (\<lambda>(isLikely, bReport, nOffset, nInvalidRecords, t).
                   m_nFileSize t - nOffset)")
     auto

declare GuessFeatureLocations_scan.simps [simp del]

text \<open>
  The whole function from line 563 on, started at the offset \<open>nOffset\<close> that lines 539-561
  compute. The result is the return value, the messages emitted and the table.
\<close>

definition GuessFeatureLocations ::
  "(nat \<Rightarrow> (nat \<times> bool) option) \<Rightarrow> bool \<Rightarrow> nat \<Rightarrow> FileGDBTable
     \<Rightarrow> bool \<times> CPLErr list \<times> FileGDBTable" where
  "GuessFeatureLocations isLikely bReportDeletedFeatures nOffset t0 =
     (case GuessFeatureLocations_scan isLikely bReportDeletedFeatures nOffset 0 t0 of
        (nInvalidRecords, t1) \<Rightarrow>
          (let t = t1\<lparr>m_nTotalRecordCount := int (length (m_anFeatureOffsets t1))\<rparr>
           in if m_nTotalRecordCount t - nInvalidRecords > m_nValidRecordCount t then
                (m_nTotalRecordCount t > 0,
                 (if \<not> m_bHasDeletedFeaturesListed t then [CE_Warning] else []),
                 t\<lparr>m_nValidRecordCount := m_nTotalRecordCount t - nInvalidRecords\<rparr>)
              else (m_nTotalRecordCount t > 0, [], t)))"

subsection \<open>GetOffsetInTableForRow() and ReadFeatureOffset()\<close>

text \<open>
  \<open>ReadFeatureOffset\<close> (lines 1601-1607): the \<open>m_nTablxOffsetSize\<close> bytes of an index
  entry, least significant first, in a \<open>uint64_t\<close>.
\<close>

definition ReadFeatureOffset :: "byte list \<Rightarrow> 64 word" where
  "ReadFeatureOffset pabyBuffer = le_bytes pabyBuffer"

text \<open>
  The loops of lines 1550-1552 and 1557-1559: the number of blocks \<open>i\<close> with
  \<open>i0 \<le> i < iBlock\<close> whose bit is set, added to \<open>nCountBlocksBefore\<close>. The count is at
  most \<open>iBlock\<close>, which is an \<open>int\<close>, so neither the \<open>GUInt32\<close> nor the \<open>int\<close> that hold it
  overflow.
\<close>

definition count_blocks :: "byte list \<Rightarrow> nat \<Rightarrow> nat \<Rightarrow> nat \<Rightarrow> nat" where
  "count_blocks blockMap nCountBlocksBefore i0 iBlock =
     foldl (\<lambda>n i. n + (if TEST_BIT blockMap i then 1 else 0)) nCountBlocksBefore [i0..<iBlock]"

text \<open>
  \<open>GetOffsetInTableForRow\<close> (lines 1518-1595); \<open>GetOffsetInTableForRow_read\<close> is its
  tail from line 1574 on. The result is the offset returned, the offset in the index file
  stored through \<open>pnOffsetInTableX\<close>, and the table. Products and sums of
  \<open>vsi_l_offset\<close> are computed modulo \<open>2 ^ 64\<close>. \<open>iRow / 1024\<close> and \<open>iRow % 1024\<close> are
  taken on a non-negative \<open>iRow\<close>, and the cast of \<open>iRow / 1024\<close> to \<open>int\<close> is exact for
  the row counts an index file with a block map can declare. Without an index file
  \<open>m_nTotalRecordCount\<close> is the size of \<open>m_anFeatureOffsets\<close> (line 603).
\<close>

definition GetOffsetInTableForRow_read ::
  "byte list \<Rightarrow> FileGDBTable \<Rightarrow> 64 word \<Rightarrow> 64 word \<times> 64 word \<times> FileGDBTable" where
  "GetOffsetInTableForRow_read tablx t nOffsetInTableX =
     (case file_read tablx (unat nOffsetInTableX) (m_nTablxOffsetSize t) of
        None \<Rightarrow> (0, nOffsetInTableX, t\<lparr>m_bError := True\<rparr>)
      | Some abyBuffer \<Rightarrow>
          (ReadFeatureOffset abyBuffer, nOffsetInTableX, t\<lparr>m_bError := False\<rparr>))"

definition GetOffsetInTableForRow ::
  "int \<Rightarrow> FileGDBTable \<Rightarrow> 64 word \<times> 64 word \<times> FileGDBTable" where
  "GetOffsetInTableForRow iRow t0 =
     (if iRow < 0 \<or> iRow \<ge> m_nTotalRecordCount t0 then (0, 0, t0)
      else
        (let t = t0\<lparr>m_bIsDeleted := False\<rparr> in
         case m_fpTableX t of
           None \<Rightarrow>
             (let x = (m_anFeatureOffsets t) ! (nat iRow)
              in (GET_OFFSET x, 0, t\<lparr>m_bIsDeleted := IS_DELETED x\<rparr>))
         | Some tablx \<Rightarrow>
             (if m_abyTablXBlockMap t \<noteq> [] then
                (let iBlock = nat (iRow div 1024) in
                 if \<not> TEST_BIT (m_abyTablXBlockMap t) iBlock then (0, 0, t)
                 else
                   (let nCountBlocksBefore =
                          (if int iBlock \<ge> m_nCountBlocksBeforeIBlockIdx t then
                             count_blocks (m_abyTablXBlockMap t)
                               (nat (m_nCountBlocksBeforeIBlockValue t))
                               (nat (m_nCountBlocksBeforeIBlockIdx t)) iBlock
                           else count_blocks (m_abyTablXBlockMap t) 0 0 iBlock);
                        t1 = t\<lparr>m_nCountBlocksBeforeIBlockIdx := int iBlock,
                               m_nCountBlocksBeforeIBlockValue := int nCountBlocksBefore\<rparr>;
                        iCorrectedRow = int nCountBlocksBefore * 1024 + iRow mod 1024
                    in GetOffsetInTableForRow_read tablx t1
                         (16 + of_nat (m_nTablxOffsetSize t) * of_int iCorrectedRow)))
              else
                GetOffsetInTableForRow_read tablx t
                  (16 + of_nat (m_nTablxOffsetSize t) * of_int iRow))))"

subsection \<open>SelectRow()\<close>

text \<open>
  \<open>SelectRow\<close> (lines 1654-1830). \<open>bErrorOnInconsistentBufferMaxSize\<close> is the option
  \<open>OGR_OPENFILEGDB_ERROR_ON_INCONSISTENT_BUFFER_MAX_SIZE\<close> (default \<open>NO\<close>). Growing
  \<open>m_abyBuffer\<close> is taken to succeed. \<open>INT_MAX - ZEROES_AFTER_END_OF_BUFFER\<close> is
  \<open>2147483643\<close> and \<open>100 * 1024 * 1024\<close> is \<open>104857600\<close>. The result is the return
  value and the table. The function is cut into its stages; \<open>SelectRow_done\<close> is its
  tail, lines 1821-1829.
\<close>

definition resize_buffer :: "byte list \<Rightarrow> nat \<Rightarrow> byte list" where
  "resize_buffer buf n = (if length buf < n then buf @ replicate (n - length buf) 0 else buf)"

definition SelectRow_done :: "int \<Rightarrow> FileGDBTable \<Rightarrow> bool \<times> FileGDBTable" where
  "SelectRow_done iRow t =
     (True, t\<lparr>m_nCurRow := iRow, m_nLastCol := -1,
              m_pabyIterVals := m_nNullableFieldsSizeInBytes t,
              m_iAccNullable := 0, m_bError := False, m_nChSaved := -1\<rparr>)"

text \<open>
  The failure returns of \<open>SelectRow\<close>, all of the form
  \<open>returnErrorAndCleanupIf(..., m_nCurRow = -1)\<close> or \<open>m_nCurRow = -1; return FALSE;\<close>.
\<close>

definition SelectRow_fail :: "FileGDBTable \<Rightarrow> bool \<times> FileGDBTable" where
  "SelectRow_fail t = (False, t\<lparr>m_nCurRow := -1\<rparr>)"

text \<open>
  Lines 1706-1767: a row longer than the header's maximum, when this is not an error. The
  warning is emitted once; in update mode the header and the indices are marked dirty and
  the file size is computed.
\<close>

definition SelectRow_repair_header :: "32 word \<Rightarrow> FileGDBTable \<Rightarrow> FileGDBTable" where
  "SelectRow_repair_header nLen t =
     (if \<not> m_bHasWarnedAboutHeaderRepair t then
        (if m_bUpdate t then
           t\<lparr>m_bHasWarnedAboutHeaderRepair := True, m_bDirtyHeader := True,
             m_bDirtyIndices := True, m_nFileSize := length (m_fpTable t),
             m_nHeaderBufferMaxSize := nLen\<rparr>
         else t\<lparr>m_bHasWarnedAboutHeaderRepair := True, m_nHeaderBufferMaxSize := nLen\<rparr>)
      else t\<lparr>m_nHeaderBufferMaxSize := nLen\<rparr>)"

text \<open>Lines 1770-1819: the buffer is grown and the row blob read into it.\<close>

definition SelectRow_read_blob ::
  "int \<Rightarrow> 64 word \<Rightarrow> 32 word \<Rightarrow> FileGDBTable \<Rightarrow> bool \<times> FileGDBTable" where
  "SelectRow_read_blob iRow nOffsetTable nLen t3 =
     (let t4 = (if nLen > m_nRowBufferMaxSize t3 \<and> nLen > 104857600 \<and> m_nFileSize t3 = 0
                then t3\<lparr>m_nFileSize := length (m_fpTable t3)\<rparr> else t3)
      in if nLen > m_nRowBufferMaxSize t4 \<and> nLen > 104857600 \<and>
              unat nOffsetTable + 4 + unat nLen > m_nFileSize t4
         then SelectRow_fail t4
         else
           (let t5 = (if nLen > m_nRowBufferMaxSize t4
                      then t4\<lparr>m_nRowBufferMaxSize := nLen\<rparr> else t4);
                buf = resize_buffer (m_abyBuffer t5) (unat nLen + 4)
            in case file_read (m_fpTable t5) (unat nOffsetTable + 4) (unat nLen) of
                 None \<Rightarrow>
                   (let part = drop (unat nOffsetTable + 4) (m_fpTable t5)
                    in SelectRow_fail (t5\<lparr>m_abyBuffer := part @ drop (length part) buf\<rparr>))
               | Some blob \<Rightarrow>
                   SelectRow_done iRow
                     (t5\<lparr>m_abyBuffer := blob @ replicate 4 0 @ drop (unat nLen + 4) buf\<rparr>)))"

text \<open>Lines 1669-1829: the row at a non-zero offset \<open>nOffsetTable\<close>.\<close>

definition SelectRow_at ::
  "bool \<Rightarrow> int \<Rightarrow> 64 word \<Rightarrow> FileGDBTable \<Rightarrow> bool \<times> FileGDBTable" where
  "SelectRow_at bErrorOnInconsistentBufferMaxSize iRow nOffsetTable t1 =
     (case file_read (m_fpTable t1) (unat nOffsetTable) 4 of
        None \<Rightarrow> SelectRow_fail t1
      | Some abyBuffer \<Rightarrow>
          (let nLen0 = GetUInt32 abyBuffer 0;
               nLen = (if m_bIsDeleted t1 then - nLen0 else nLen0);
               t2 = t1\<lparr>m_nRowBlobLength := nLen\<rparr>
           in if nLen > 0 then
                (if nLen < of_nat (m_nNullableFieldsSizeInBytes t2) \<or> nLen > 2147483643
                 then SelectRow_fail t2
                 else if nLen > m_nHeaderBufferMaxSize t2 then
                   (if bErrorOnInconsistentBufferMaxSize then SelectRow_fail t2
                    else SelectRow_read_blob iRow nOffsetTable nLen
                           (SelectRow_repair_header nLen t2))
                 else SelectRow_read_blob iRow nOffsetTable nLen t2)
              else SelectRow_done iRow t2))"

definition SelectRow :: "bool \<Rightarrow> int \<Rightarrow> FileGDBTable \<Rightarrow> bool \<times> FileGDBTable" where
  "SelectRow bErrorOnInconsistentBufferMaxSize iRow t0 =
     (if iRow < 0 \<or> iRow \<ge> m_nTotalRecordCount t0 then SelectRow_fail t0
      else if m_nCurRow t0 \<noteq> iRow then
        (case GetOffsetInTableForRow iRow t0 of
           (nOffsetTable, _, t1) \<Rightarrow>
             if nOffsetTable = 0 then SelectRow_fail t1
             else SelectRow_at bErrorOnInconsistentBufferMaxSize iRow nOffsetTable t1)
      else (True, t0))"

subsection \<open>GetFieldValue()\<close>

text \<open>
  What \<open>GetFieldValue\<close> returns: \<open>RetError\<close> is \<open>nullptr\<close> returned through
  \<open>returnError\<close> or \<open>returnErrorIf\<close> (an error is printed), \<open>RetNull\<close> is a plain
  \<open>return nullptr\<close>, \<open>RetField\<close> is \<open>&m_sCurField\<close> with the field's value at the time
  of the return.
\<close>

datatype FieldResult = RetError | RetNull | RetField OGRField

text \<open>
  The C string at index \<open>p\<close> of a buffer: the bytes up to the first NUL.
\<close>

definition c_string :: "byte list \<Rightarrow> nat \<Rightarrow> byte list" where
  "c_string buf p = takeWhile (\<lambda>b. b \<noteq> 0) (drop p buf)"

text \<open>
  \<open>static_cast<GUInt32>(pabyEnd - m_pabyIterVals)\<close>: the pointer difference, reduced
  modulo \<open>2 ^ 32\<close>.
\<close>

definition remaining_u32 :: "nat \<Rightarrow> nat \<Rightarrow> nat" where
  "remaining_u32 pabyEnd pabyIterVals = nat ((int pabyEnd - int pabyIterVals) mod 2 ^ 32)"

text \<open>
  The \<open>switch\<close> of the skipping loop (lines 2029-2097): the return value of the varuint
  read if there is one, the cursor, and \<open>nLength\<close>.
\<close>

definition skip_length :: "FileGDBField \<Rightarrow> byte list \<Rightarrow> nat \<Rightarrow> nat \<Rightarrow> bool \<times> nat \<times> 32 word"
  where
  "skip_length f buf pabyIterVals pabyEnd =
     (case m_eType f of
        FGFT_UNDEFINED \<Rightarrow> (True, pabyIterVals, 0)
      | FGFT_OBJECTID \<Rightarrow> (True, pabyIterVals, 0)
      | FGFT_STRING \<Rightarrow> ReadVarUInt32 buf pabyIterVals pabyEnd 0
      | FGFT_XML \<Rightarrow> ReadVarUInt32 buf pabyIterVals pabyEnd 0
      | FGFT_GEOMETRY \<Rightarrow> ReadVarUInt32 buf pabyIterVals pabyEnd 0
      | FGFT_BINARY \<Rightarrow> ReadVarUInt32 buf pabyIterVals pabyEnd 0
      | FGFT_RASTER \<Rightarrow>
          (if m_eRasterType f = MANAGED then (True, pabyIterVals, 4)
           else ReadVarUInt32 buf pabyIterVals pabyEnd 0)
      | FGFT_INT16 \<Rightarrow> (True, pabyIterVals, 2)
      | FGFT_INT32 \<Rightarrow> (True, pabyIterVals, 4)
      | FGFT_FLOAT32 \<Rightarrow> (True, pabyIterVals, 4)
      | FGFT_FLOAT64 \<Rightarrow> (True, pabyIterVals, 8)
      | FGFT_DATETIME \<Rightarrow> (True, pabyIterVals, 8)
      | FGFT_DATE \<Rightarrow> (True, pabyIterVals, 8)
      | FGFT_TIME \<Rightarrow> (True, pabyIterVals, 8)
      | FGFT_GUID \<Rightarrow> (True, pabyIterVals, 16)
      | FGFT_GLOBALID \<Rightarrow> (True, pabyIterVals, 16)
      | FGFT_INT64 \<Rightarrow> (True, pabyIterVals, 8)
      | FGFT_DATETIME_WITH_OFFSET \<Rightarrow> (True, pabyIterVals, 10))"

text \<open>
  One iteration of the loop ``Skip previous fields'' (lines 2017-2105) for column \<open>j\<close>, and
  the loop over the columns \<open>js\<close>. \<open>False\<close> is the error return, with \<open>m_bError\<close> set.
\<close>

definition skip_field :: "nat \<Rightarrow> nat \<Rightarrow> FileGDBTable \<Rightarrow> bool \<times> FileGDBTable" where
  "skip_field pabyEnd j t =
     (let f = m_apoFields t ! j in
      if m_bNullable f \<and> TEST_BIT (m_abyBuffer t) (m_iAccNullable t) then
        (True, t\<lparr>m_iAccNullable := m_iAccNullable t + 1\<rparr>)
      else
        (let t1 = (if m_bNullable f then t\<lparr>m_iAccNullable := m_iAccNullable t + 1\<rparr> else t)
         in case skip_length f (m_abyBuffer t1) (m_pabyIterVals t1) pabyEnd of
              (ok, pabyIterVals', nLength) \<Rightarrow>
                if \<not> ok then (False, t1\<lparr>m_pabyIterVals := pabyIterVals', m_bError := True\<rparr>)
                else if unat nLength > remaining_u32 pabyEnd pabyIterVals' then
                  (False, t1\<lparr>m_pabyIterVals := pabyIterVals', m_bError := True\<rparr>)
                else (True, t1\<lparr>m_pabyIterVals := pabyIterVals' + unat nLength\<rparr>)))"

fun skip_fields :: "nat \<Rightarrow> nat list \<Rightarrow> FileGDBTable \<Rightarrow> bool \<times> FileGDBTable" where
  "skip_fields pabyEnd [] t = (True, t)"
| "skip_fields pabyEnd (j # js) t =
     (case skip_field pabyEnd j t of
        (False, t') \<Rightarrow> (False, t')
      | (True, t') \<Rightarrow> skip_fields pabyEnd js t')"

text \<open>
  The error return of the decoding \<open>switch\<close>: \<open>m_bError = TRUE; returnError();\<close>.
\<close>

definition field_error :: "FileGDBTable \<Rightarrow> FieldResult \<times> FileGDBTable" where
  "field_error t = (RetError, t\<lparr>m_bError := True\<rparr>)"

text \<open>
  A value of fixed width \<open>n\<close>: the bounds test \<open>m_pabyIterVals + n > pabyEnd\<close>, the value
  \<open>v\<close> stored in \<open>m_sCurField\<close>, and the cursor advanced by \<open>n\<close>.
\<close>

definition fixed_field :: "nat \<Rightarrow> nat \<Rightarrow> OGRField \<Rightarrow> FileGDBTable \<Rightarrow> FieldResult \<times> FileGDBTable"
  where
  "fixed_field pabyEnd n v t =
     (if m_pabyIterVals t + n > pabyEnd then field_error t
      else (RetField v, t\<lparr>m_sCurField := v, m_pabyIterVals := m_pabyIterVals t + n\<rparr>))"

text \<open>
  A value with a varuint length prefix (strings, binaries, rasters that are not managed):
  the two error tests, then \<open>how\<close> says what is stored, from the buffer, the start of the
  value and \<open>nLength\<close>. With \<open>bTerminate\<close> the byte after the value is saved in
  \<open>m_nChSaved\<close> and overwritten with NUL, and the value is built from the buffer so
  changed.
\<close>

definition varlen_field ::
  "nat \<Rightarrow> bool \<Rightarrow> (byte list \<Rightarrow> nat \<Rightarrow> nat \<Rightarrow> OGRField) \<Rightarrow> FileGDBTable
     \<Rightarrow> FieldResult \<times> FileGDBTable" where
  "varlen_field pabyEnd bTerminate how t =
     (case ReadVarUInt32 (m_abyBuffer t) (m_pabyIterVals t) pabyEnd 0 of
        (ok, pabyIterVals', nLength) \<Rightarrow>
          if \<not> ok then field_error (t\<lparr>m_pabyIterVals := pabyIterVals'\<rparr>)
          else if unat nLength > remaining_u32 pabyEnd pabyIterVals' then
            field_error (t\<lparr>m_pabyIterVals := pabyIterVals'\<rparr>)
          else
            (let p = pabyIterVals' + unat nLength in
             if bTerminate then
               (let buf' = (m_abyBuffer t)[p := 0];
                    v = how buf' pabyIterVals' (unat nLength)
                in (RetField v,
                    t\<lparr>m_sCurField := v, m_pabyIterVals := p,
                      m_nChSaved := uint (byte_at (m_abyBuffer t) p), m_abyBuffer := buf'\<rparr>))
             else
               (let v = how (m_abyBuffer t) pabyIterVals' (unat nLength)
                in (RetField v, t\<lparr>m_sCurField := v, m_pabyIterVals := p\<rparr>))))"

text \<open>
  The decoding \<open>switch\<close> (lines 2119-2462) for a field \<open>f\<close> that is not null. The GUID
  is kept as its 16 bytes in the order \<open>snprintf\<close> prints them. For \<open>FGFT_UNDEFINED\<close>
  the source asserts (\<open>CPLAssert(false)\<close>) and, the assertion compiled out, returns
  \<open>&m_sCurField\<close> as the last decoding left it.
\<close>

definition read_value :: "FileGDBField \<Rightarrow> nat \<Rightarrow> FileGDBTable \<Rightarrow> FieldResult \<times> FileGDBTable"
  where
  "read_value f pabyEnd t1 =
     (let buf = m_abyBuffer t1; p = m_pabyIterVals t1
      in case m_eType f of
           FGFT_UNDEFINED \<Rightarrow> (RetField (m_sCurField t1), t1)
         | FGFT_OBJECTID \<Rightarrow> (RetNull, t1)
         | FGFT_STRING \<Rightarrow>
             (if m_bStringsAreUTF8 t1 then
                varlen_field pabyEnd True (\<lambda>b q n. Field_String (c_string b q)) t1
              else
                varlen_field pabyEnd False
                  (\<lambda>b q n. Field_UTF16String (bytes_at b q (2 * (n div 2)))) t1)
         | FGFT_XML \<Rightarrow> varlen_field pabyEnd True (\<lambda>b q n. Field_String (c_string b q)) t1
         | FGFT_INT16 \<Rightarrow> fixed_field pabyEnd 2 (Field_Integer (GetInt16 buf p)) t1
         | FGFT_INT32 \<Rightarrow> fixed_field pabyEnd 4 (Field_Integer (GetInt32 buf p)) t1
         | FGFT_FLOAT32 \<Rightarrow> fixed_field pabyEnd 4 (Field_RealOfFloat32 (GetFloat32 buf p)) t1
         | FGFT_FLOAT64 \<Rightarrow> fixed_field pabyEnd 8 (Field_Real (GetFloat64 buf p)) t1
         | FGFT_DATETIME \<Rightarrow>
             fixed_field pabyEnd 8
               (if m_bReadAsDouble f then Field_Real (GetFloat64 buf p)
                else Field_Date (GetFloat64 buf p) (m_bHighPrecision f)) t1
         | FGFT_DATE \<Rightarrow>
             fixed_field pabyEnd 8
               (if m_bReadAsDouble f then Field_Real (GetFloat64 buf p)
                else Field_Date (GetFloat64 buf p) (m_bHighPrecision f)) t1
         | FGFT_GEOMETRY \<Rightarrow> varlen_field pabyEnd True (\<lambda>b q n. Field_Binary (bytes_at b q n)) t1
         | FGFT_BINARY \<Rightarrow> varlen_field pabyEnd True (\<lambda>b q n. Field_Binary (bytes_at b q n)) t1
         | FGFT_RASTER \<Rightarrow>
             (if m_eRasterType f = MANAGED then
                fixed_field pabyEnd 4 (Field_Integer (GetInt32 buf p)) t1
              else if m_eRasterType f = EXTERNAL then
                varlen_field pabyEnd False
                  (\<lambda>b q n. Field_UTF16String (bytes_at b q (2 * (n div 2)))) t1
              else varlen_field pabyEnd True (\<lambda>b q n. Field_Binary (bytes_at b q n)) t1)
         | FGFT_GUID \<Rightarrow>
             fixed_field pabyEnd 16
               (Field_GUID (map (\<lambda>i. byte_at buf (p + i))
                  [3, 2, 1, 0, 5, 4, 7, 6, 8, 9, 10, 11, 12, 13, 14, 15])) t1
         | FGFT_GLOBALID \<Rightarrow>
             fixed_field pabyEnd 16
               (Field_GUID (map (\<lambda>i. byte_at buf (p + i))
                  [3, 2, 1, 0, 5, 4, 7, 6, 8, 9, 10, 11, 12, 13, 14, 15])) t1
         | FGFT_INT64 \<Rightarrow> fixed_field pabyEnd 8 (Field_Integer64 (GetInt64 buf p)) t1
         | FGFT_TIME \<Rightarrow>
             fixed_field pabyEnd 8
               (if m_bReadAsDouble f then Field_Real (GetFloat64 buf p)
                else Field_Time (GetFloat64 buf p)) t1
         | FGFT_DATETIME_WITH_OFFSET \<Rightarrow>
             fixed_field pabyEnd 10
               (if m_bReadAsDouble f then
                  Field_RealMinusOffset (GetFloat64 buf p) (GetInt16 buf (p + 8))
                else Field_DateTimeWithOffset (GetFloat64 buf p) (GetInt16 buf (p + 8))) t1)"

text \<open>
  The decoding of column \<open>iCol\<close> from the null test on (lines 2109-2471).
\<close>

definition read_field :: "nat \<Rightarrow> nat \<Rightarrow> FileGDBTable \<Rightarrow> FieldResult \<times> FileGDBTable" where
  "read_field pabyEnd iCol t =
     (let f = m_apoFields t ! iCol in
      if m_bNullable f \<and> TEST_BIT (m_abyBuffer t) (m_iAccNullable t) then
        (RetNull, t\<lparr>m_iAccNullable := m_iAccNullable t + 1\<rparr>)
      else
        read_value f pabyEnd
          (if m_bNullable f then t\<lparr>m_iAccNullable := m_iAccNullable t + 1\<rparr> else t))"

text \<open>
  \<open>GetFieldValue\<close> (lines 1992-2472). The unsigned comparison
  \<open>static_cast<GUInt32>(iCol) >= m_apoFields.size()\<close> rejects a negative \<open>iCol\<close> too.
  \<open>GetFieldValue_restore\<close> is lines 2003-2007 (the byte overwritten by the NUL of the
  last string is put back), \<open>GetFieldValue_rewind\<close> lines 2009-2014 (a column at or
  before the last one read restarts the walk at column 0).
\<close>

definition GetFieldValue_restore :: "FileGDBTable \<Rightarrow> FileGDBTable" where
  "GetFieldValue_restore t =
     (if m_nChSaved t \<ge> 0 then
        t\<lparr>m_abyBuffer := (m_abyBuffer t)[m_pabyIterVals t := of_int (m_nChSaved t)],
          m_nChSaved := -1\<rparr>
      else t)"

definition GetFieldValue_rewind :: "int \<Rightarrow> FileGDBTable \<Rightarrow> FileGDBTable" where
  "GetFieldValue_rewind iCol t =
     (if iCol \<le> m_nLastCol t then
        t\<lparr>m_nLastCol := -1, m_pabyIterVals := m_nNullableFieldsSizeInBytes t,
          m_iAccNullable := 0\<rparr>
      else t)"

definition GetFieldValue :: "int \<Rightarrow> FileGDBTable \<Rightarrow> FieldResult \<times> FileGDBTable" where
  "GetFieldValue iCol t =
     (if m_nCurRow t < 0 then (RetError, t)
      else if iCol < 0 \<or> int (length (m_apoFields t)) \<le> iCol then (RetError, t)
      else if m_bError t then (RetError, t)
      else
        (let pabyEnd = unat (m_nRowBlobLength t);
             t2 = GetFieldValue_rewind iCol (GetFieldValue_restore t)
         in case skip_fields pabyEnd [nat (m_nLastCol t2 + 1)..<nat iCol] t2 of
              (False, t3) \<Rightarrow> (RetError, t3)
            | (True, t3) \<Rightarrow> read_field pabyEnd (nat iCol) (t3\<lparr>m_nLastCol := iCol\<rparr>)))"

text \<open>The columns \<open>cols\<close> read one after the other; the values returned are dropped.\<close>

definition read_columns :: "int list \<Rightarrow> FileGDBTable \<Rightarrow> FileGDBTable" where
  "read_columns cols t = foldl (\<lambda>t c. snd (GetFieldValue c t)) t cols"

subsection \<open>Offset resolution, as the specification words it\<close>

text \<open>
  The number of present blocks before block \<open>iBlock\<close>, the index entry of width \<open>w\<close> at a
  byte offset of the index file (zero when it cannot be read), and the offset of a row:
  the entry at \<open>16 + entryWidth \<times> row\<close> without a block map; with one, ``absent'' (zero)
  for a block that is not marked present and else the entry at
  \<open>16 + entryWidth \<times> correctedRow\<close>, \<open>correctedRow\<close> being 1024 times the number of
  present blocks before the row's block plus \<open>row mod 1024\<close>; zero for a row out of range.
\<close>

definition present_blocks_before :: "byte list \<Rightarrow> nat \<Rightarrow> nat" where
  "present_blocks_before blockMap iBlock = length (filter (TEST_BIT blockMap) [0..<iBlock])"

definition index_entry :: "byte list \<Rightarrow> nat \<Rightarrow> 64 word \<Rightarrow> 64 word" where
  "index_entry tablx entryWidth off =
     (case file_read tablx (unat off) entryWidth of None \<Rightarrow> 0 | Some bs \<Rightarrow> le_bytes bs)"

definition offset_for_row :: "byte list \<Rightarrow> nat \<Rightarrow> byte list \<Rightarrow> int \<Rightarrow> int \<Rightarrow> 64 word" where
  "offset_for_row tablx entryWidth blockMap totalRecordCount row =
     (if row < 0 \<or> totalRecordCount \<le> row then 0
      else if blockMap = [] then
        index_entry tablx entryWidth (16 + of_nat entryWidth * of_int row)
      else if \<not> TEST_BIT blockMap (nat (row div 1024)) then 0
      else
        index_entry tablx entryWidth
          (16 + of_nat entryWidth *
             of_int (1024 * int (present_blocks_before blockMap (nat (row div 1024)))
                     + row mod 1024)))"

text \<open>The rows \<open>rows\<close> resolved one after the other; the offsets returned are dropped.\<close>

definition resolve_rows :: "int list \<Rightarrow> FileGDBTable \<Rightarrow> FileGDBTable" where
  "resolve_rows rows t = foldl (\<lambda>t r. snd (snd (GetOffsetInTableForRow r t))) t rows"

subsection \<open>A table to run the functions on\<close>

text \<open>
  A table of three rows and two fields, an \<open>int32\<close> that is not nullable and a nullable
  string, with its index file. Row 0 (offset 40) has the bitmask byte \<open>0b00000010\<close>, the
  integer 5 and the string \<open>A\<close>; row 1 (offset 51) has the bitmask byte \<open>0b00000001\<close> and
  the integer 6; row 2 (offset 60) has the length 0.
\<close>

definition example_table :: FileGDBTable where
  "example_table =
     \<lparr>m_apoFields =
        [\<lparr>m_eType = FGFT_INT32, m_bNullable = False, m_bReadAsDouble = False,
          m_bHighPrecision = False, m_eRasterType = EXTERNAL\<rparr>,
         \<lparr>m_eType = FGFT_STRING, m_bNullable = True, m_bReadAsDouble = False,
          m_bHighPrecision = False, m_eRasterType = EXTERNAL\<rparr>],
      m_bStringsAreUTF8 = True,
      m_nNullableFieldsSizeInBytes = BIT_ARRAY_SIZE_IN_BYTES 1,
      m_fpTable = replicate 40 0 @ [7, 0, 0, 0, 2, 5, 0, 0, 0, 1, 0x41]
                    @ [5, 0, 0, 0, 1, 6, 0, 0, 0] @ [0, 0, 0, 0],
      m_fpTableX = Some (replicate 16 0 @ [40, 0, 0, 0, 0] @ [51, 0, 0, 0, 0] @ [60, 0, 0, 0, 0]),
      m_bUpdate = False,
      m_nFileSize = 0,
      m_nValidRecordCount = 3,
      m_nTotalRecordCount = 3,
      m_nTablxOffsetSize = 5,
      m_abyTablXBlockMap = [],
      m_nCountBlocksBeforeIBlockIdx = 0,
      m_nCountBlocksBeforeIBlockValue = 0,
      m_anFeatureOffsets = [],
      m_bHasDeletedFeaturesListed = False,
      m_bIsDeleted = False,
      m_abyBuffer = replicate 8 0,
      m_nRowBlobLength = 0,
      m_nHeaderBufferMaxSize = 7,
      m_nRowBufferMaxSize = 4,
      m_nCurRow = -1,
      m_nLastCol = -1,
      m_pabyIterVals = 0,
      m_iAccNullable = 0,
      m_bError = False,
      m_nChSaved = -1,
      m_sCurField = Field_Zero,
      m_bHasWarnedAboutHeaderRepair = False,
      m_bDirtyHeader = False,
      m_bDirtyIndices = False\<rparr>"

text \<open>
  The cache of lines 1545-1562 is consistent when \<open>m_nCountBlocksBeforeIBlockValue\<close> is the
  number of present blocks before block \<open>m_nCountBlocksBeforeIBlockIdx\<close>.
\<close>

definition block_cache_consistent :: "FileGDBTable \<Rightarrow> bool" where
  "block_cache_consistent t \<longleftrightarrow>
     0 \<le> m_nCountBlocksBeforeIBlockIdx t \<and>
     m_nCountBlocksBeforeIBlockValue t =
       int (present_blocks_before (m_abyTablXBlockMap t) (nat (m_nCountBlocksBeforeIBlockIdx t)))"

subsection \<open>The layout of a field's value\<close>

text \<open>
  What a field that is not null takes in the row, as both \<open>switch\<close> statements of
  \<open>GetFieldValue\<close> have it: nothing, a fixed number of bytes, or a varuint length
  followed by that many bytes.
\<close>

datatype FieldLayout = LayoutNone | LayoutFixed nat | LayoutVarlen

definition field_layout :: "FileGDBField \<Rightarrow> FieldLayout" where
  "field_layout f =
     (case m_eType f of
        FGFT_UNDEFINED \<Rightarrow> LayoutNone
      | FGFT_OBJECTID \<Rightarrow> LayoutNone
      | FGFT_STRING \<Rightarrow> LayoutVarlen
      | FGFT_XML \<Rightarrow> LayoutVarlen
      | FGFT_GEOMETRY \<Rightarrow> LayoutVarlen
      | FGFT_BINARY \<Rightarrow> LayoutVarlen
      | FGFT_RASTER \<Rightarrow> (if m_eRasterType f = MANAGED then LayoutFixed 4 else LayoutVarlen)
      | FGFT_INT16 \<Rightarrow> LayoutFixed 2
      | FGFT_INT32 \<Rightarrow> LayoutFixed 4
      | FGFT_FLOAT32 \<Rightarrow> LayoutFixed 4
      | FGFT_FLOAT64 \<Rightarrow> LayoutFixed 8
      | FGFT_DATETIME \<Rightarrow> LayoutFixed 8
      | FGFT_DATE \<Rightarrow> LayoutFixed 8
      | FGFT_TIME \<Rightarrow> LayoutFixed 8
      | FGFT_GUID \<Rightarrow> LayoutFixed 16
      | FGFT_GLOBALID \<Rightarrow> LayoutFixed 16
      | FGFT_INT64 \<Rightarrow> LayoutFixed 8
      | FGFT_DATETIME_WITH_OFFSET \<Rightarrow> LayoutFixed 10)"

subsection \<open>A row selected and not yet read\<close>

text \<open>
  The state of the field cursor that \<open>SelectRow\<close> leaves (lines 1821-1826), for a row
  whose blob is at least as long as its nullable bitmask, in a schema that \<open>Open\<close> can
  build: the type byte of a field descriptor is never \<open>FGFT_UNDEFINED\<close>.
\<close>

definition row_selected :: "FileGDBTable \<Rightarrow> bool" where
  "row_selected t \<longleftrightarrow>
     0 \<le> m_nCurRow t \<and> m_nLastCol t = -1 \<and>
     m_pabyIterVals t = m_nNullableFieldsSizeInBytes t \<and> m_iAccNullable t = 0 \<and>
     \<not> m_bError t \<and> m_nChSaved t = -1 \<and>
     m_nNullableFieldsSizeInBytes t \<le> unat (m_nRowBlobLength t) \<and>
     list_all (\<lambda>f. m_eType f \<noteq> FGFT_UNDEFINED) (m_apoFields t)"

text \<open>
  The row is well formed when each of its columns, read first after the selection, is
  decoded without error.
\<close>

definition row_well_formed :: "FileGDBTable \<Rightarrow> bool" where
  "row_well_formed t \<longleftrightarrow>
     list_all (\<lambda>c. fst (GetFieldValue (int c) t) \<noteq> RetError) [0..<length (m_apoFields t)]"

text \<open>
  The field cursor of \<open>t\<close> stands behind column \<open>m_nLastCol\<close> of the row selected in
  \<open>t0\<close>: apart from the cursor members and the byte that \<open>m_nChSaved\<close> holds, \<open>t\<close> is
  \<open>t0\<close>, and the cursor is where skipping the columns up to \<open>m_nLastCol\<close> from the start
  of the row leads.
\<close>

definition cursor_at :: "FileGDBTable \<Rightarrow> FileGDBTable \<Rightarrow> bool" where
  "cursor_at t0 t \<longleftrightarrow>
     \<not> m_bError t \<and> - 1 \<le> m_nLastCol t \<and> m_nLastCol t < int (length (m_apoFields t0)) \<and>
     m_pabyIterVals t \<le> unat (m_nRowBlobLength t0) \<and>
     GetFieldValue_restore t =
       t0\<lparr>m_nLastCol := m_nLastCol t, m_pabyIterVals := m_pabyIterVals t,
          m_iAccNullable := m_iAccNullable t, m_sCurField := m_sCurField t\<rparr> \<and>
     skip_fields (unat (m_nRowBlobLength t0)) [0..<nat (m_nLastCol t + 1)] t0 =
       (True, t0\<lparr>m_pabyIterVals := m_pabyIterVals t, m_iAccNullable := m_iAccNullable t\<rparr>)"

section \<open>Theorems\<close>

subsection \<open>Record counts at open time\<close>

text \<open>
  C7, as stated, asks for a warning whenever the index's total \<open>T\<close> and the header's valid
  count \<open>V\<close> differ. With \<open>T = 5\<close>, \<open>V = 3\<close> and the default configuration the counts differ
  and \<open>Open\<close> emits nothing.
\<close>

theorem Open_reconcile_no_warning_counterexample:
  "(5::int) \<noteq> 3 \<and> Open_reconcile True False 5 3 = (5, 3, [])"
  by (simp add: Open_reconcile_def)

text \<open>
  C7, amended: with an index file open, the total record count after reconciliation is
  \<open>max T V\<close> when the record-count option is set and the index's \<open>T\<close> otherwise; the valid
  record count is \<open>V\<close> when the option is set and \<open>min T V\<close> otherwise; a warning is emitted
  exactly when \<open>V > T\<close> and the option is not set.
\<close>

theorem Open_reconcile_amended:
  "Open_reconcile True bUse T V =
     ((if bUse then max T V else T), (if bUse then V else min T V),
      (if V > T then (if bUse then [CE_Debug] else [CE_Warning]) else []))"
  by (simp add: Open_reconcile_def max_def min_def)

subsection \<open>Variable-length unsigned integers\<close>

lemma byte_at_append [simp]: "byte_at (pre @ b # post) (length pre) = b"
  by (simp add: byte_at_def)



lemma bit_127_int [simp]: "bit (127 :: int) n \<longleftrightarrow> n < 7"
proof -
  have "(127 :: int) = mask 7" by (simp add: mask_eq_exp_minus_1)
  then show ?thesis by (simp only: bit_mask_iff) auto
qed

lemma bit_128_int [simp]: "bit (128 :: int) n \<longleftrightarrow> n = 7"
proof -
  have "(128 :: int) = 2 ^ 7" by simp
  then show ?thesis by (simp only: bit_exp_iff) auto
qed

lemma and_7F: "(x :: 'a::len word) AND 0x7F = take_bit 7 x"
  by (rule bit_word_eqI) (auto simp: bit_simps)

lemma less128_take_bit: "(w :: 64 word) < 128 \<Longrightarrow> take_bit 7 w = w"
  using less_mask_eq[of w 7] by (simp add: take_bit_eq_mask)

lemma not_less128_shift:
  assumes "\<not> drop_bit sh (v :: 64 word) < 128"
  shows "sh + 7 < 64"
proof (rule ccontr)
  assume "\<not> sh + 7 < 64"
  then have "(2::nat) ^ 64 \<le> 2 ^ (sh + 7)"
    by (intro power_increasing) auto
  moreover have "unat v < 2 ^ 64" using unsigned_less[of v] by simp
  ultimately have "unat v < 2 ^ sh * 2 ^ 7" by (simp add: power_add)
  then have "unat v div 2 ^ sh < 2 ^ 7"
    by (simp add: less_mult_imp_div_less mult.commute)
  moreover have "unat (drop_bit sh v) = unat v div 2 ^ sh"
    by (simp only: unat_drop_bit_eq) (simp add: drop_bit_eq_div)
  ultimately have "drop_bit sh v < 128"
    by (simp only: word_less_nat_alt) simp
  with assms show False by simp
qed

lemma ucast_low7: "(ucast (ucast (take_bit 7 (x :: 64 word)) :: byte) :: 64 word) = take_bit 7 x"
  by (rule bit_word_eqI) (auto simp: bit_simps)

lemma cont_byte_flag:
  "(ucast (ucast ((x :: 64 word) AND 0x7F) OR 0x80 :: byte) :: 64 word) AND 0x80 \<noteq> 0"
proof -
  have "bit ((ucast (ucast (x AND 0x7F) OR 0x80 :: byte) :: 64 word) AND 0x80) 7"
    by (simp add: bit_simps)
  then show ?thesis by auto
qed

lemma cont_byte_data:
  "(ucast (ucast ((x :: 64 word) AND 0x7F) OR 0x80 :: byte) :: 64 word) AND 0x7F = take_bit 7 x"
  by (rule bit_word_eqI) (auto simp: bit_simps)

lemma last_byte_flag: "(take_bit 7 (x :: 64 word)) AND 0x80 = 0"
  by (rule bit_word_eqI) (auto simp: bit_simps)

lemma acc_step: "sh + 7 \<le> 64 \<Longrightarrow>
  take_bit sh (v :: 64 word) OR push_bit sh (take_bit 7 (drop_bit sh v)) = take_bit (sh + 7) v"
  by (rule bit_word_eqI) (auto simp: bit_simps)

lemma acc_last: "take_bit sh (v :: 64 word) OR push_bit sh (drop_bit sh v) = v"
proof (rule bit_word_eqI)
  fix n assume "n < LENGTH(64)"
  then show "bit (take_bit sh v OR push_bit sh (drop_bit sh v)) n = bit v n"
    by (cases "n < sh") (auto simp: bit_simps)
qed

lemma loop_roundtrip:
  "sh < 64 \<Longrightarrow>
   ReadVarUInt_loop ControlTypeNone (pre @ encode_varuint (drop_bit sh v) @ post) e
       (length pre) sh (take_bit sh v) it out =
     (True, length pre + length (encode_varuint (drop_bit sh v)), v)"
proof (induction "64 - sh" arbitrary: sh pre rule: less_induct)
  case less
  let ?w = "drop_bit sh v"
  show ?case
  proof (cases "?w < 128")
    case True
    then have tb: "take_bit 7 ?w = ?w" by (rule less128_take_bit)
    have enc: "encode_varuint ?w = [ucast ?w]"
      using True by (subst encode_varuint.simps) simp
    have b: "(ucast (ucast ?w :: byte) :: 64 word) = ?w"
      using ucast_low7[of ?w] tb by simp
    have f: "?w AND 0x80 = 0" using last_byte_flag[of ?w] tb by simp
    have d: "?w AND 0x7F = ?w" using and_7F[of ?w] tb by simp
    have d2: "push_bit sh ?w AND push_bit sh 0x7F = push_bit sh ?w"
      by (metis d push_bit_and)
    show ?thesis
      unfolding enc
      by (subst ReadVarUInt_loop.simps) (simp add: b f d Let_def acc_last del: push_bit_and)
  next
    case False
    then have sh7: "sh + 7 < 64" by (rule not_less128_shift)
    let ?b = "ucast (?w AND 0x7F) OR 0x80 :: byte"
    have enc: "encode_varuint ?w = ?b # encode_varuint (drop_bit (sh + 7) v)"
      using False by (subst encode_varuint.simps) (simp add: add.commute)
    have IH: "ReadVarUInt_loop ControlTypeNone
               ((pre @ [?b]) @ encode_varuint (drop_bit (sh + 7) v) @ post) e
               (length (pre @ [?b])) (sh + 7) (take_bit (sh + 7) v) it out =
             (True, length (pre @ [?b]) + length (encode_varuint (drop_bit (sh + 7) v)), v)"
      using less.hyps[of "sh + 7" "pre @ [?b]"] sh7 less.prems by simp
    show ?thesis
      unfolding enc
      apply (subst ReadVarUInt_loop.simps)
      using IH sh7
      by (simp add: Let_def cont_byte_flag cont_byte_data acc_step del: push_bit_and)
  qed
qed

lemma ReadVarUInt64NoCheck_encode_varuint:
  "ReadVarUInt64NoCheck (pre @ encode_varuint v @ post) (length pre) out =
     (length pre + length (encode_varuint v), v)"
proof (cases "v < 128")
  case True
  then have tb: "take_bit 7 v = v" by (rule less128_take_bit)
  have enc: "encode_varuint v = [ucast v]"
    using True by (subst encode_varuint.simps) simp
  have b: "(ucast (ucast v :: byte) :: 64 word) = v"
    using ucast_low7[of v] tb by simp
  have f: "v AND 0x80 = 0" using last_byte_flag[of v] tb by simp
  show ?thesis
    unfolding enc by (simp add: ReadVarUInt64NoCheck_def ReadVarUInt_def b f)
next
  case False
  let ?b = "ucast (v AND 0x7F) OR 0x80 :: byte"
  have enc: "encode_varuint v = ?b # encode_varuint (drop_bit 7 v)"
    using False by (subst encode_varuint.simps) simp
  have L: "ReadVarUInt_loop ControlTypeNone
               ((pre @ [?b]) @ encode_varuint (drop_bit 7 v) @ post) 0
               (length (pre @ [?b])) 7 (take_bit 7 v) (length pre) out =
             (True, length (pre @ [?b]) + length (encode_varuint (drop_bit 7 v)), v)"
    by (rule loop_roundtrip) simp
  show ?thesis
    unfolding enc using L
    by (simp add: ReadVarUInt64NoCheck_def ReadVarUInt_def cont_byte_flag cont_byte_data)
qed


text \<open>
  C2: for every unsigned 64-bit integer \<open>v\<close>, decoding the little-endian base-128 encoding
  of \<open>v\<close> with \<open>ReadVarUInt64NoCheck\<close>, wherever the encoding lies in the buffer, gives
  \<open>v\<close> back and leaves the cursor just after the encoded bytes.
\<close>

theorem varuint64_encode_decode_identity:
  "ReadVarUInt64NoCheck (pre @ encode_varuint v @ post) (length pre) nOutVal =
     (length pre + length (encode_varuint v), v)"
  by (rule ReadVarUInt64NoCheck_encode_varuint)

lemma not_and_128: "(w :: 'a::len word) AND 128 = 0 \<longleftrightarrow> \<not> (bit w 7 \<and> 7 < LENGTH('a))"
proof
  assume "w AND 128 = 0"
  then have "\<not> bit (w AND 128) 7" by simp
  then show "\<not> (bit w 7 \<and> 7 < LENGTH('a))" by (simp add: bit_simps)
next
  assume "\<not> (bit w 7 \<and> 7 < LENGTH('a))"
  then show "w AND 128 = 0"
    by (intro bit_word_eqI) (auto simp: bit_simps)
qed

lemma ucast32_cont: "(ucast (b :: byte) :: 32 word) AND 0x80 = 0 \<longleftrightarrow> \<not> has_continuation b"
  by (simp add: has_continuation_def not_and_128 bit_simps)

lemma avail_Cons:
  "p < e \<Longrightarrow> e \<le> length buf \<Longrightarrow>
     drop p (take e buf) = byte_at buf p # drop (Suc p) (take e buf)"
  using Cons_nth_drop_Suc[of p "take e buf"] by (simp add: byte_at_def)

lemma loop32_fails_iff:
  fixes nVal out :: "32 word"
  assumes "check_bounds ct" "e \<le> length buf"
  shows "sh < 32 \<Longrightarrow>
    (\<not> fst (ReadVarUInt_loop ct buf e p sh nVal it out)) \<longleftrightarrow>
    (let avail = drop p (take e buf); k = length (takeWhile has_continuation avail)
     in k = length avail \<or> 32 \<le> sh + 7 * k)"
proof (induction "32 - sh" arbitrary: sh p nVal rule: less_induct)
  case less
  show ?case
  proof (cases "p < e")
    case False
    then show ?thesis using assms
      by (subst ReadVarUInt_loop.simps) simp
  next
    case True
    note av = avail_Cons[OF True assms(2)]
    show ?thesis
    proof (cases "has_continuation (byte_at buf p)")
      case False
      then show ?thesis using True less.prems
        by (subst ReadVarUInt_loop.simps) (simp add: av ucast32_cont Let_def)
    next
      case c: True
      show ?thesis
      proof (cases "32 \<le> sh + 7")
        case True
        then show ?thesis using c \<open>p < e\<close>
          by (subst ReadVarUInt_loop.simps) (simp add: av ucast32_cont Let_def)
      next
        case False
        then have "32 - (sh + 7) < 32 - sh" "sh + 7 < 32" by auto
        note IH = less.hyps[OF this, of "Suc p"]
        show ?thesis using c \<open>p < e\<close> False
          by (subst ReadVarUInt_loop.simps) (simp add: av ucast32_cont Let_def IH)
      qed
    qed
  qed
qed

lemma ReadVarUInt32_fails_when:
  assumes "e \<le> length buf"
  shows "(\<not> fst (ReadVarUInt32 buf p e out)) \<longleftrightarrow>
    (let avail = drop p (take e buf); k = length (takeWhile has_continuation avail)
     in k = length avail \<or> 32 \<le> 7 * k)"
proof (cases "p < e")
  case False
  then show ?thesis by (simp add: ReadVarUInt32_def ReadVarUInt_def)
next
  case True
  note av = avail_Cons[OF True assms]
  have L: "\<And>nVal. (\<not> fst (ReadVarUInt_loop ControlTypeVerboseErrorTrue buf e (Suc p) 7 nVal p out)) \<longleftrightarrow>
    (let avail = drop (Suc p) (take e buf); k = length (takeWhile has_continuation avail)
     in k = length avail \<or> 32 \<le> 7 + 7 * k)"
    by (rule loop32_fails_iff) (use assms in auto)
  show ?thesis using True
    by (simp add: ReadVarUInt32_def ReadVarUInt_def av ucast32_cont Let_def L)
qed

lemma loop_independent:
  assumes "check_bounds ct" "\<forall>i<e. byte_at buf i = byte_at buf' i"
  shows "ReadVarUInt_loop ct buf e p sh (nVal :: 'a::len word) it out =
         ReadVarUInt_loop ct buf' e p sh nVal it out"
proof (induction "LENGTH('a) - sh" arbitrary: sh p nVal rule: less_induct)
  case less
  show ?case
  proof (cases "p < e")
    case False
    then show ?thesis using assms
      by (subst ReadVarUInt_loop.simps, subst (2) ReadVarUInt_loop.simps) simp
  next
    case True
    then have b: "byte_at buf p = byte_at buf' p" using assms by simp
    show ?thesis
    proof (cases "LENGTH('a) \<le> sh + 7")
      case True
      then show ?thesis
        by (subst ReadVarUInt_loop.simps, subst (2) ReadVarUInt_loop.simps) (simp add: b Let_def)
    next
      case False
      then have "LENGTH('a) - (sh + 7) < LENGTH('a) - sh" by auto
      note IH = less.hyps[OF this]
      show ?thesis
        by (subst ReadVarUInt_loop.simps, subst (2) ReadVarUInt_loop.simps)
           (simp add: b IH Let_def)
    qed
  qed
qed

lemma take_eq_byte_at:
  assumes "take e buf = take e buf'" "i < e"
  shows "byte_at buf i = byte_at buf' i"
proof -
  have l: "min e (length buf) = min e (length buf')"
    using arg_cong[OF assms(1), of length] by simp
  have "i < length buf \<longleftrightarrow> i < length buf'" using l assms(2) by (auto simp: min_def split: if_splits)
  moreover have "i < length buf \<Longrightarrow> buf ! i = buf' ! i"
    using arg_cong[OF assms(1), of "\<lambda>xs. xs ! i"] assms(2) by simp
  ultimately show ?thesis by (auto simp: byte_at_def)
qed

lemma ReadVarUInt32_independent:
  assumes "take e buf = take e buf'"
  shows "ReadVarUInt32 buf p e out = ReadVarUInt32 buf' p e out"
proof -
  have a: "\<forall>i<e. byte_at buf i = byte_at buf' i"
    using take_eq_byte_at[OF assms] by simp
  have L: "\<And>nVal. ReadVarUInt_loop ControlTypeVerboseErrorTrue buf e (Suc p) 7 (nVal::32 word) p out
       = ReadVarUInt_loop ControlTypeVerboseErrorTrue buf' e (Suc p) 7 nVal p out"
    by (rule loop_independent) (use a in auto)
  show ?thesis
  proof (cases "p < e")
    case True
    then have "byte_at buf p = byte_at buf' p" using a by simp
    then show ?thesis by (simp add: ReadVarUInt32_def ReadVarUInt_def L Let_def)
  next
    case False
    then show ?thesis by (simp add: ReadVarUInt32_def ReadVarUInt_def)
  qed
qed

text \<open>
  C3: with the end pointer inside the buffer, the bounds-checked decoder \<open>ReadVarUInt32\<close>
  fails exactly when (a) every byte from the cursor up to the end pointer has its
  continuation bit set, so that the cursor would reach the end before the varint
  terminates, or (b) the varint has at least five continuation bytes, so that the shift
  \<open>7 * k\<close> would reach 32; and the bytes at or past the end pointer have no influence on the
  result, cursor or value.
\<close>

theorem ReadVarUInt32_failure_characterised:
  assumes "pabyEnd \<le> length buf"
  shows "((\<not> fst (ReadVarUInt32 buf pabyIter pabyEnd nOutVal)) \<longleftrightarrow>
           (let avail = drop pabyIter (take pabyEnd buf);
                k = length (takeWhile has_continuation avail)
            in k = length avail \<or> 32 \<le> 7 * k)) \<and>
         (\<forall>buf'. take pabyEnd buf' = take pabyEnd buf \<longrightarrow>
            ReadVarUInt32 buf' pabyIter pabyEnd nOutVal =
            ReadVarUInt32 buf pabyIter pabyEnd nOutVal)"
proof (intro conjI allI impI)
  show "(\<not> fst (ReadVarUInt32 buf pabyIter pabyEnd nOutVal)) \<longleftrightarrow>
           (let avail = drop pabyIter (take pabyEnd buf);
                k = length (takeWhile has_continuation avail)
            in k = length avail \<or> 32 \<le> 7 * k)"
    by (rule ReadVarUInt32_fails_when[OF assms])
next
  fix buf' assume "take pabyEnd buf' = take pabyEnd buf"
  then show "ReadVarUInt32 buf' pabyIter pabyEnd nOutVal =
            ReadVarUInt32 buf pabyIter pabyEnd nOutVal"
    by (rule ReadVarUInt32_independent)
qed

theorem ReadVarUInt32_failure_characterised_witness:
  "2 \<le> length [0xAC, 0x82 :: byte] \<and>
   \<not> fst (ReadVarUInt32 [0xAC, 0x82] 0 2 7) \<and>
   ReadVarUInt32 [0xAC, 0x82, 0x01] 0 2 7 = ReadVarUInt32 [0xAC, 0x82] 0 2 7"
proof -
  have h: "2 \<le> length [0xAC, 0x82 :: byte]" by simp
  note t = ReadVarUInt32_failure_characterised[OF h, of 0 7]
  from t[THEN conjunct1] have a: "\<not> fst (ReadVarUInt32 [0xAC, 0x82] 0 2 7)"
    by (simp add: has_continuation_def)
  from t[THEN conjunct2] have "take 2 [0xAC, 0x82, 0x01 :: byte] = take 2 [0xAC, 0x82] \<longrightarrow>
      ReadVarUInt32 [0xAC, 0x82, 0x01] 0 2 7 = ReadVarUInt32 [0xAC, 0x82] 0 2 7"
    by blast
  then have b: "ReadVarUInt32 [0xAC, 0x82, 0x01] 0 2 7 = ReadVarUInt32 [0xAC, 0x82] 0 2 7"
    by simp
  from h a b show ?thesis by blast
qed

subsection \<open>Delta-encoded coordinate arrays\<close>

lemma bit_63_int [simp]: "bit (63 :: int) n \<longleftrightarrow> n < 6"
proof -
  have "(63 :: int) = mask 6" by (simp add: mask_eq_exp_minus_1)
  then show ?thesis by (simp only: bit_mask_iff) auto
qed

lemma bit_64_int [simp]: "bit (64 :: int) n \<longleftrightarrow> n = 6"
proof -
  have "(64 :: int) = 2 ^ 6" by simp
  then show ?thesis by (simp only: bit_exp_iff) auto
qed









lemma encode_deltas_simps [simp]:
  "encode_deltas [] = []"
  "encode_deltas (d # ds) = encode_varint_delta d @ encode_deltas ds"
  "encode_deltas (xs @ ys) = encode_deltas xs @ encode_deltas ys"
  by (simp_all add: encode_deltas_def)

lemma encode_delta_pairs_simps [simp]:
  "encode_delta_pairs [] = []"
  "encode_delta_pairs ((dx, dy) # ps) =
     encode_varint_delta dx @ encode_varint_delta dy @ encode_delta_pairs ps"
  "encode_delta_pairs (xs @ ys) = encode_delta_pairs xs @ encode_delta_pairs ys"
  by (simp_all add: encode_delta_pairs_def)




lemma length_running_sums [simp]: "length (running_sums acc ds) = length ds"
  by (induction ds arbitrary: acc) auto





lemma split_parts_append:
  "length xs = n \<Longrightarrow> split_parts (n # ns) (xs @ ys) = xs # split_parts ns ys"
  by simp

lemma length_ordinates_from [simp]: "length (ordinates_from acc sc origin ds) = length ds"
  by (simp add: ordinates_from_def)












lemma SanitizeScale_nonzero: "dfVal \<noteq> 0 \<Longrightarrow> SanitizeScale dfVal = dfVal"
  by (simp add: SanitizeScale_def)



subsection \<open>Record counts after the recovery scan\<close>

lemma scan_keeps_valid_count:
  "m_nValidRecordCount (snd (GuessFeatureLocations_scan isLikely bReport nOffset nInvalid t)) =
     m_nValidRecordCount t"
proof (induction isLikely bReport nOffset nInvalid t rule: GuessFeatureLocations_scan.induct)
  case (1 isLikely bReport nOffset nInvalid t)
  show ?case
  proof (cases "nOffset < m_nFileSize t")
    case False
    then show ?thesis by (subst GuessFeatureLocations_scan.simps) simp
  next
    case True
    show ?thesis
    proof (cases "isLikely nOffset")
      case None
      then show ?thesis using True "1.IH"(1)
        by (subst GuessFeatureLocations_scan.simps) simp
    next
      case (Some a)
      obtain n d where a: "a = (n, d)" by (cases a)
      show ?thesis using True Some a "1.IH"(2-4)[OF True Some a[symmetric]]
        by (subst GuessFeatureLocations_scan.simps) simp
    qed
  qed
qed

text \<open>
  C8, as stated, has the header's valid-record count lowered, with a warning, when the scan
  finds fewer valid records than declared. A file of 44 bytes with one record at offset 40
  and a header declaring 5 valid records: the scan finds 1 record, the count stays 5 and
  nothing is emitted.
\<close>

theorem GuessFeatureLocations_fewer_counterexample:
  "(case GuessFeatureLocations (\<lambda>off. if off = 40 then Some (0, False) else None) False 40
          (example_table\<lparr>m_fpTableX := None, m_nFileSize := 44, m_nValidRecordCount := 5,
             m_nTotalRecordCount := 0\<rparr>) of
      (ret, msgs, t) \<Rightarrow>
        ret \<and> msgs = [] \<and> m_anFeatureOffsets t = [40] \<and> m_nTotalRecordCount t = 1 \<and>
        m_nValidRecordCount t = 5)"
  by code_simp

text \<open>
  C8, amended: after the scan, the valid-record count is the larger of the declared count
  and the number of records found less the deleted ones skipped, so it is never lowered;
  a warning is emitted exactly when the count is raised and no deleted feature is listed.
\<close>

theorem GuessFeatureLocations_reconcile_amended:
  "(case GuessFeatureLocations_scan isLikely bReport nOffset 0 t0 of
      (nInvalidRecords, t1) \<Rightarrow>
        (case GuessFeatureLocations isLikely bReport nOffset t0 of
           (ret, msgs, t) \<Rightarrow>
             m_nTotalRecordCount t = int (length (m_anFeatureOffsets t1)) \<and>
             m_nValidRecordCount t =
               max (m_nValidRecordCount t0) (m_nTotalRecordCount t - nInvalidRecords) \<and>
             msgs = (if m_nTotalRecordCount t - nInvalidRecords > m_nValidRecordCount t0 \<and>
                        \<not> m_bHasDeletedFeaturesListed t1
                     then [CE_Warning] else [])))"
  using scan_keeps_valid_count[of isLikely bReport nOffset 0 t0]
  by (auto simp: GuessFeatureLocations_def Let_def max_def split: prod.splits)

subsection \<open>Resolving a row to an offset\<close>

lemma foldl_count:
  "foldl (\<lambda>n i. n + (if P i then 1 else 0)) n xs = n + length (filter P xs)"
  by (induction xs arbitrary: n) auto

lemma count_blocks_eq:
  "count_blocks bm n i j = n + length (filter (TEST_BIT bm) [i..<j])"
  by (simp add: count_blocks_def foldl_count)

lemma present_blocks_split:
  assumes "i \<le> j"
  shows "present_blocks_before bm i + length (filter (TEST_BIT bm) [i..<j]) =
         present_blocks_before bm j"
proof -
  have "[0..<j] = [0..<i] @ [i..<j]"
    using assms upt_add_eq_append[of 0 i "j - i"] by simp
  then show ?thesis by (simp add: present_blocks_before_def)
qed

lemma GetOffsetInTableForRow_read_fst:
  "fst (GetOffsetInTableForRow_read tablx t off) = index_entry tablx (m_nTablxOffsetSize t) off"
  by (simp add: GetOffsetInTableForRow_read_def index_entry_def ReadFeatureOffset_def
           split: option.splits)

lemma GetOffsetInTableForRow_read_frame:
  "m_fpTableX (snd (snd (GetOffsetInTableForRow_read tablx t off))) = m_fpTableX t \<and>
   m_nTablxOffsetSize (snd (snd (GetOffsetInTableForRow_read tablx t off))) = m_nTablxOffsetSize t \<and>
   m_abyTablXBlockMap (snd (snd (GetOffsetInTableForRow_read tablx t off))) = m_abyTablXBlockMap t \<and>
   m_nTotalRecordCount (snd (snd (GetOffsetInTableForRow_read tablx t off))) = m_nTotalRecordCount t \<and>
   m_nCountBlocksBeforeIBlockIdx (snd (snd (GetOffsetInTableForRow_read tablx t off))) =
     m_nCountBlocksBeforeIBlockIdx t \<and>
   m_nCountBlocksBeforeIBlockValue (snd (snd (GetOffsetInTableForRow_read tablx t off))) =
     m_nCountBlocksBeforeIBlockValue t"
  by (simp add: GetOffsetInTableForRow_read_def split: option.splits)

lemma cached_count:
  assumes "block_cache_consistent t" and "m_nCountBlocksBeforeIBlockIdx t \<le> int iBlock"
  shows "count_blocks (m_abyTablXBlockMap t) (nat (m_nCountBlocksBeforeIBlockValue t))
              (nat (m_nCountBlocksBeforeIBlockIdx t)) iBlock =
         present_blocks_before (m_abyTablXBlockMap t) iBlock"
proof -
  have le: "nat (m_nCountBlocksBeforeIBlockIdx t) \<le> iBlock" using assms(2) by simp
  show ?thesis
    using assms present_blocks_split[OF le, of "m_abyTablXBlockMap t"]
    by (simp add: count_blocks_eq block_cache_consistent_def)
qed

lemma count_from_cache:
  "i \<le> j \<Longrightarrow>
     count_blocks bm (present_blocks_before bm i) i j = present_blocks_before bm j"
  using present_blocks_split[of i j bm] by (simp add: count_blocks_eq)

lemma uncached_count:
  "count_blocks bm 0 0 iBlock = present_blocks_before bm iBlock"
  by (simp add: count_blocks_eq present_blocks_before_def)

lemma GetOffsetInTableForRow_step:
  assumes "m_fpTableX t = Some tablx" and "block_cache_consistent t"
  shows "fst (GetOffsetInTableForRow r t) =
           offset_for_row tablx (m_nTablxOffsetSize t) (m_abyTablXBlockMap t)
             (m_nTotalRecordCount t) r"
    and "block_cache_consistent (snd (snd (GetOffsetInTableForRow r t)))"
    and "m_fpTableX (snd (snd (GetOffsetInTableForRow r t))) = Some tablx"
    and "m_nTablxOffsetSize (snd (snd (GetOffsetInTableForRow r t))) = m_nTablxOffsetSize t"
    and "m_abyTablXBlockMap (snd (snd (GetOffsetInTableForRow r t))) = m_abyTablXBlockMap t"
    and "m_nTotalRecordCount (snd (snd (GetOffsetInTableForRow r t))) = m_nTotalRecordCount t"
proof -
  note cc = cached_count[OF assms(2)] uncached_count
  show "fst (GetOffsetInTableForRow r t) =
           offset_for_row tablx (m_nTablxOffsetSize t) (m_abyTablXBlockMap t)
             (m_nTotalRecordCount t) r"
    using assms(1)
    by (simp add: GetOffsetInTableForRow_def offset_for_row_def Let_def
                  GetOffsetInTableForRow_read_fst cc mult.commute)
  show "block_cache_consistent (snd (snd (GetOffsetInTableForRow r t)))"
    using assms GetOffsetInTableForRow_read_frame
    by (simp add: GetOffsetInTableForRow_def Let_def block_cache_consistent_def
                  count_from_cache uncached_count)
  show "m_fpTableX (snd (snd (GetOffsetInTableForRow r t))) = Some tablx"
    using assms(1) GetOffsetInTableForRow_read_frame
    by (simp add: GetOffsetInTableForRow_def Let_def)
  show "m_nTablxOffsetSize (snd (snd (GetOffsetInTableForRow r t))) = m_nTablxOffsetSize t"
    using assms(1) GetOffsetInTableForRow_read_frame
    by (simp add: GetOffsetInTableForRow_def Let_def)
  show "m_abyTablXBlockMap (snd (snd (GetOffsetInTableForRow r t))) = m_abyTablXBlockMap t"
    using assms(1) GetOffsetInTableForRow_read_frame
    by (simp add: GetOffsetInTableForRow_def Let_def)
  show "m_nTotalRecordCount (snd (snd (GetOffsetInTableForRow r t))) = m_nTotalRecordCount t"
    using assms(1) GetOffsetInTableForRow_read_frame
    by (simp add: GetOffsetInTableForRow_def Let_def)
qed

lemma resolve_rows_invariant:
  assumes "m_fpTableX t = Some tablx" and "block_cache_consistent t"
  shows "block_cache_consistent (resolve_rows rows t) \<and>
         m_fpTableX (resolve_rows rows t) = Some tablx \<and>
         m_nTablxOffsetSize (resolve_rows rows t) = m_nTablxOffsetSize t \<and>
         m_abyTablXBlockMap (resolve_rows rows t) = m_abyTablXBlockMap t \<and>
         m_nTotalRecordCount (resolve_rows rows t) = m_nTotalRecordCount t"
  using assms
proof (induction rows arbitrary: t)
  case Nil
  then show ?case by (simp add: resolve_rows_def)
next
  case (Cons r rows)
  note s = GetOffsetInTableForRow_step[OF Cons.prems, of r]
  have "resolve_rows (r # rows) t = resolve_rows rows (snd (snd (GetOffsetInTableForRow r t)))"
    by (simp add: resolve_rows_def)
  then show ?case
    using Cons.IH[OF s(3) s(2)] s(4-6) by simp
qed


text \<open>
  C6: on a table with an index file, freshly opened (the block cache at its initial 0, 0)
  and whose block map, if any, covers the declared rows, \<open>GetOffsetInTableForRow\<close> returns
  for every row the offset that the specification describes (\<open>offset_for_row\<close>: the entry
  at \<open>16 + entryWidth \<times> row\<close> without a block map; with one, zero for a block not marked
  present and else the entry at \<open>16 + entryWidth \<times> correctedRow\<close>; zero for a row out of
  range or an entry that cannot be read), whatever rows \<open>rows\<close> were resolved before.
\<close>

theorem GetOffsetInTableForRow_resolves:
  assumes "m_fpTableX t0 = Some tablx"
    and "m_nCountBlocksBeforeIBlockIdx t0 = 0"
    and "m_nCountBlocksBeforeIBlockValue t0 = 0"
    and "m_abyTablXBlockMap t0 = [] \<or>
         m_nTotalRecordCount t0 \<le> 8192 * int (length (m_abyTablXBlockMap t0))"
  shows "fst (GetOffsetInTableForRow iRow (resolve_rows rows t0)) =
           offset_for_row tablx (m_nTablxOffsetSize t0) (m_abyTablXBlockMap t0)
             (m_nTotalRecordCount t0) iRow"
proof -
  have c0: "block_cache_consistent t0"
    using assms(2,3) by (simp add: block_cache_consistent_def present_blocks_before_def)
  note inv = resolve_rows_invariant[OF assms(1) c0, of rows]
  from inv have a: "m_fpTableX (resolve_rows rows t0) = Some tablx"
    and b: "block_cache_consistent (resolve_rows rows t0)" by simp_all
  show ?thesis
    using GetOffsetInTableForRow_step(1)[OF a b, of iRow] inv by simp
qed

theorem GetOffsetInTableForRow_resolves_witness:
  "m_fpTableX (example_table\<lparr>m_abyTablXBlockMap := [0x04], m_nTotalRecordCount := 3072\<rparr>) =
     Some (replicate 16 0 @ [40, 0, 0, 0, 0] @ [51, 0, 0, 0, 0] @ [60, 0, 0, 0, 0]) \<and>
   fst (GetOffsetInTableForRow 2050
          (resolve_rows [2050, 5, 2049]
             (example_table\<lparr>m_abyTablXBlockMap := [0x04], m_nTotalRecordCount := 3072\<rparr>))) = 60 \<and>
   fst (GetOffsetInTableForRow 5
          (resolve_rows [2050]
             (example_table\<lparr>m_abyTablXBlockMap := [0x04], m_nTotalRecordCount := 3072\<rparr>))) = 0"
proof -
  let ?t = "example_table\<lparr>m_abyTablXBlockMap := [0x04], m_nTotalRecordCount := 3072\<rparr>"
  let ?x = "replicate 16 0 @ [40, 0, 0, 0, 0] @ [51, 0, 0, 0, 0] @ [60, 0, 0, 0, 0 :: byte]"
  have h1: "m_fpTableX ?t = Some ?x" by (simp add: example_table_def)
  have h2: "m_nCountBlocksBeforeIBlockIdx ?t = 0" by (simp add: example_table_def)
  have h3: "m_nCountBlocksBeforeIBlockValue ?t = 0" by (simp add: example_table_def)
  have h4: "m_abyTablXBlockMap ?t = [] \<or>
            m_nTotalRecordCount ?t \<le> 8192 * int (length (m_abyTablXBlockMap ?t))"
    by (simp add: example_table_def)
  have e1: "offset_for_row ?x (m_nTablxOffsetSize ?t) (m_abyTablXBlockMap ?t)
              (m_nTotalRecordCount ?t) 2050 = 60"
    by code_simp
  have e2: "offset_for_row ?x (m_nTablxOffsetSize ?t) (m_abyTablXBlockMap ?t)
              (m_nTotalRecordCount ?t) 5 = 0"
    by code_simp
  from GetOffsetInTableForRow_resolves[OF h1 h2 h3 h4, of 2050 "[2050, 5, 2049]"] e1
  have r1: "fst (GetOffsetInTableForRow 2050 (resolve_rows [2050, 5, 2049] ?t)) = 60"
    by simp
  from GetOffsetInTableForRow_resolves[OF h1 h2 h3 h4, of 5 "[2050]"] e2
  have r2: "fst (GetOffsetInTableForRow 5 (resolve_rows [2050] ?t)) = 0"
    by simp
  from h1 r1 r2 show ?thesis by blast
qed

subsection \<open>Selecting a row\<close>

lemma GetOffsetInTableForRow_frame:
  "m_nCurRow (snd (snd (GetOffsetInTableForRow r t))) = m_nCurRow t \<and>
   m_abyBuffer (snd (snd (GetOffsetInTableForRow r t))) = m_abyBuffer t \<and>
   m_fpTable (snd (snd (GetOffsetInTableForRow r t))) = m_fpTable t \<and>
   m_nNullableFieldsSizeInBytes (snd (snd (GetOffsetInTableForRow r t))) =
     m_nNullableFieldsSizeInBytes t \<and>
   m_apoFields (snd (snd (GetOffsetInTableForRow r t))) = m_apoFields t \<and>
   m_pabyIterVals (snd (snd (GetOffsetInTableForRow r t))) = m_pabyIterVals t \<and>
   m_iAccNullable (snd (snd (GetOffsetInTableForRow r t))) = m_iAccNullable t \<and>
   m_nLastCol (snd (snd (GetOffsetInTableForRow r t))) = m_nLastCol t"
  by (simp add: GetOffsetInTableForRow_def GetOffsetInTableForRow_read_def Let_def
           split: option.splits)

lemma SelectRow_fail_resets:
  "(case SelectRow_fail t of (ok, t') \<Rightarrow> ok \<or> m_nCurRow t' = -1)"
  by (simp add: SelectRow_fail_def)

lemma SelectRow_done_ok:
  "(case SelectRow_done iRow t of (ok, t') \<Rightarrow> ok \<or> m_nCurRow t' = -1)"
  by (simp add: SelectRow_done_def)

lemma SelectRow_read_blob_resets:
  "(case SelectRow_read_blob iRow off nLen t of (ok, t') \<Rightarrow> ok \<or> m_nCurRow t' = -1)"
  by (simp add: SelectRow_read_blob_def Let_def SelectRow_fail_resets SelectRow_done_ok
           split: option.split)

lemma SelectRow_at_resets:
  "(case SelectRow_at b iRow off t of (ok, t') \<Rightarrow> ok \<or> m_nCurRow t' = -1)"
  by (simp add: SelectRow_at_def Let_def SelectRow_fail_resets SelectRow_done_ok
                SelectRow_read_blob_resets split: option.split)

lemma SelectRow_resets:
  "(case SelectRow b iRow t of (ok, t') \<Rightarrow> ok \<or> m_nCurRow t' = -1)"
proof -
  obtain off x t1 where g: "GetOffsetInTableForRow iRow t = (off, x, t1)"
    by (cases "GetOffsetInTableForRow iRow t") auto
  show ?thesis
    using SelectRow_fail_resets[of t] SelectRow_fail_resets[of t1]
          SelectRow_at_resets[of b iRow off t1]
    by (simp add: SelectRow_def g)
qed

lemma SelectRow_failure_resets:
  "\<not> fst (SelectRow b iRow t) \<Longrightarrow> m_nCurRow (snd (SelectRow b iRow t)) = -1"
  using SelectRow_resets[of b iRow t] by (simp add: case_prod_beta)

lemma GetFieldValue_no_row:
  "m_nCurRow t < 0 \<Longrightarrow> GetFieldValue c t = (RetError, t)"
  by (simp add: GetFieldValue_def)

lemma read_columns_no_row:
  "m_nCurRow t < 0 \<Longrightarrow> read_columns cols t = t"
  by (induction cols) (simp_all add: read_columns_def GetFieldValue_no_row)


text \<open>
  C10: when \<open>SelectRow\<close> returns failure, the current row is \<open>-1\<close>, and every
  \<open>GetFieldValue\<close> call made afterwards, whatever columns were asked for in between,
  returns the error value and leaves the table as it is.
\<close>

theorem SelectRow_failure_invalidates_row:
  assumes "\<not> fst (SelectRow bErrorOnInconsistentBufferMaxSize iRow t)"
  shows "m_nCurRow (snd (SelectRow bErrorOnInconsistentBufferMaxSize iRow t)) = -1 \<and>
         GetFieldValue iCol
           (read_columns cols (snd (SelectRow bErrorOnInconsistentBufferMaxSize iRow t))) =
           (RetError, snd (SelectRow bErrorOnInconsistentBufferMaxSize iRow t))"
proof -
  let ?t = "snd (SelectRow bErrorOnInconsistentBufferMaxSize iRow t)"
  have r: "m_nCurRow ?t = -1" using assms by (rule SelectRow_failure_resets)
  then have n: "m_nCurRow ?t < 0" by simp
  show ?thesis
    using r read_columns_no_row[OF n, of cols] GetFieldValue_no_row[OF n, of iCol] by simp
qed

theorem SelectRow_failure_invalidates_row_witness:
  "\<not> fst (SelectRow False 7 (snd (SelectRow False 1 example_table))) \<and>
   fst (GetFieldValue 0 (snd (SelectRow False 1 example_table))) = RetField (Field_Integer 6) \<and>
   m_nCurRow (snd (SelectRow False 7 (snd (SelectRow False 1 example_table)))) = -1 \<and>
   fst (GetFieldValue 0
          (read_columns [1, 0]
             (snd (SelectRow False 7 (snd (SelectRow False 1 example_table)))))) = RetError"
proof -
  have h: "\<not> fst (SelectRow False 7 (snd (SelectRow False 1 example_table)))"
    by code_simp
  have v: "fst (GetFieldValue 0 (snd (SelectRow False 1 example_table))) =
             RetField (Field_Integer 6)"
    by code_simp
  from SelectRow_failure_invalidates_row[OF h, of 0 "[1, 0]"] h v
  show ?thesis by simp
qed


text \<open>
  The length tests of lines 1685-1689: for a row that is not the current one, resolved to a
  non-zero offset and whose 4-byte length can be read, if the declared length (un-negated
  for a deleted record) is not zero and is smaller than the nullable-bitmask width or larger
  than \<open>INT_MAX - 4\<close>, then \<open>SelectRow\<close> fails, the current row is \<open>-1\<close>, and neither the
  row buffer nor the field cursor has been touched.
\<close>

lemma SelectRow_rejects_bad_length:
  assumes "0 \<le> iRow" and "iRow < m_nTotalRecordCount t" and "m_nCurRow t \<noteq> iRow"
    and "fst (GetOffsetInTableForRow iRow t) \<noteq> 0"
    and "file_read (m_fpTable t) (unat (fst (GetOffsetInTableForRow iRow t))) 4 = Some abyBuffer"
    and "nLen = (if m_bIsDeleted (snd (snd (GetOffsetInTableForRow iRow t)))
                 then - GetUInt32 abyBuffer 0 else GetUInt32 abyBuffer 0)"
    and "nLen \<noteq> 0"
    and "nLen < of_nat (m_nNullableFieldsSizeInBytes t) \<or> nLen > 2147483643"
  shows "\<not> fst (SelectRow b iRow t) \<and>
         m_nCurRow (snd (SelectRow b iRow t)) = -1 \<and>
         m_abyBuffer (snd (SelectRow b iRow t)) = m_abyBuffer t \<and>
         m_pabyIterVals (snd (SelectRow b iRow t)) = m_pabyIterVals t \<and>
         m_iAccNullable (snd (SelectRow b iRow t)) = m_iAccNullable t \<and>
         m_nLastCol (snd (SelectRow b iRow t)) = m_nLastCol t"
proof -
  obtain off x t1 where g: "GetOffsetInTableForRow iRow t = (off, x, t1)"
    by (cases "GetOffsetInTableForRow iRow t") auto
  have fr: "m_abyBuffer t1 = m_abyBuffer t" "m_fpTable t1 = m_fpTable t"
    "m_nNullableFieldsSizeInBytes t1 = m_nNullableFieldsSizeInBytes t"
    "m_pabyIterVals t1 = m_pabyIterVals t" "m_iAccNullable t1 = m_iAccNullable t"
    "m_nLastCol t1 = m_nLastCol t"
    using GetOffsetInTableForRow_frame[of iRow t] g by simp_all
  have pos: "0 < nLen" using assms(7) by (simp add: word_greater_zero_iff)
  have at: "SelectRow_at b iRow off t1 = SelectRow_fail (t1\<lparr>m_nRowBlobLength := nLen\<rparr>)"
    using assms(5,6,8) g fr pos by (simp add: SelectRow_at_def Let_def)
  have "SelectRow b iRow t = SelectRow_fail (t1\<lparr>m_nRowBlobLength := nLen\<rparr>)"
    using assms(1-4) g at by (simp add: SelectRow_def)
  then show ?thesis using fr by (simp add: SelectRow_fail_def)
qed

lemma SelectRow_rejects_bad_length_example:
  "fst (GetOffsetInTableForRow 2
          (example_table\<lparr>m_fpTable := replicate 60 0 @ [0xFF, 0xFF, 0xFF, 0x7F]\<rparr>)) = 60 \<and>
   GetUInt32 [0xFF, 0xFF, 0xFF, 0x7F] 0 = 2147483647 \<and>
   \<not> fst (SelectRow False 2
            (example_table\<lparr>m_fpTable := replicate 60 0 @ [0xFF, 0xFF, 0xFF, 0x7F]\<rparr>)) \<and>
   m_nCurRow (snd (SelectRow False 2
            (example_table\<lparr>m_fpTable := replicate 60 0 @ [0xFF, 0xFF, 0xFF, 0x7F]\<rparr>))) = -1"
proof -
  let ?t = "example_table\<lparr>m_fpTable := replicate 60 0 @ [0xFF, 0xFF, 0xFF, 0x7F]\<rparr>"
  have o: "fst (GetOffsetInTableForRow 2 ?t) = 60" by code_simp
  have l: "GetUInt32 [0xFF, 0xFF, 0xFF, 0x7F] 0 = 2147483647" by code_simp
  have h1: "(0::int) \<le> 2" by simp
  have h2: "2 < m_nTotalRecordCount ?t" by code_simp
  have h3: "m_nCurRow ?t \<noteq> 2" by code_simp
  have h4: "fst (GetOffsetInTableForRow 2 ?t) \<noteq> 0" using o by simp
  have h5: "file_read (m_fpTable ?t) (unat (fst (GetOffsetInTableForRow 2 ?t))) 4 =
              Some [0xFF, 0xFF, 0xFF, 0x7F]"
    by code_simp
  have h6: "(2147483647 :: 32 word) =
              (if m_bIsDeleted (snd (snd (GetOffsetInTableForRow 2 ?t)))
               then - GetUInt32 [0xFF, 0xFF, 0xFF, 0x7F] 0
               else GetUInt32 [0xFF, 0xFF, 0xFF, 0x7F] 0)"
    by code_simp
  have h7: "(2147483647 :: 32 word) \<noteq> 0" by simp
  have h8: "(2147483647 :: 32 word) < of_nat (m_nNullableFieldsSizeInBytes ?t) \<or>
            (2147483647 :: 32 word) > 2147483643"
    by simp
  from SelectRow_rejects_bad_length[OF h1 h2 h3 h4 h5 h6 h7 h8, of False] o l
  show ?thesis by simp
qed

text \<open>
  C5: \<open>SelectRow\<close> is to fail for every declared row length smaller than the
  nullable-bitmask width. The source makes the tests above only under
  \<open>if (m_nRowBlobLength > 0)\<close> (line 1681), whereas \<open>IsLikelyFeatureAtOffset\<close> (line 266)
  makes the same test for every length. Row 2 of the example table declares the length 0,
  the bitmask takes 1 byte, and \<open>SelectRow\<close> succeeds; selected after row 1, it leaves the
  bytes of row 1 in the buffer and the field cursor (1) beyond the end of the row (0).
\<close>

theorem SelectRow_zero_length_accepted:
  "m_nNullableFieldsSizeInBytes example_table = 1 \<and>
   fst (SelectRow False 2 example_table) \<and>
   m_nRowBlobLength (snd (SelectRow False 2 example_table)) = 0 \<and>
   m_nCurRow (snd (SelectRow False 2 example_table)) = 2 \<and>
   fst (SelectRow False 2 (snd (SelectRow False 1 example_table))) \<and>
   m_abyBuffer (snd (SelectRow False 2 (snd (SelectRow False 1 example_table)))) =
     m_abyBuffer (snd (SelectRow False 1 example_table)) \<and>
   m_pabyIterVals (snd (SelectRow False 2 (snd (SelectRow False 1 example_table)))) = 1"
  by code_simp

subsection \<open>Reading the fields of a row\<close>

text \<open>Bounds of the varuint reader and of the skipping loop, and what they leave unchanged.\<close>

lemma ReadVarUInt_loop_bounded:
  assumes "check_bounds ct"
  shows "fst (ReadVarUInt_loop ct buf e p sh (nVal :: 'a::len word) it out) \<Longrightarrow>
         fst (snd (ReadVarUInt_loop ct buf e p sh nVal it out)) \<le> e"
proof (induction "LENGTH('a) - sh" arbitrary: sh p nVal rule: less_induct)
  case less
  show ?case
  proof (cases "p < e")
    case False
    then show ?thesis using less.prems assms
      by (subst (asm) ReadVarUInt_loop.simps) simp
  next
    case True
    show ?thesis
    proof (cases "LENGTH('a) \<le> sh + 7")
      case True
      then show ?thesis using less.prems \<open>p < e\<close>
        by (subst ReadVarUInt_loop.simps, subst (asm) ReadVarUInt_loop.simps)
           (auto simp: Let_def split: if_splits)
    next
      case False
      then have "LENGTH('a) - (sh + 7) < LENGTH('a) - sh" by auto
      note IH = less.hyps[OF this]
      show ?thesis using less.prems \<open>p < e\<close> False IH
        by (subst ReadVarUInt_loop.simps, subst (asm) ReadVarUInt_loop.simps)
           (auto simp: Let_def split: if_splits)
    qed
  qed
qed

lemma ReadVarUInt32_bounded:
  "ReadVarUInt32 buf p e out = (True, p', n) \<Longrightarrow> p' \<le> e"
proof -
  assume a: "ReadVarUInt32 buf p e out = (True, p', n)"
  show ?thesis
  proof (cases "p < e")
    case False
    then show ?thesis using a by (simp add: ReadVarUInt32_def ReadVarUInt_def)
  next
    case True
    have L: "\<And>nVal. fst (ReadVarUInt_loop ControlTypeVerboseErrorTrue buf e (Suc p) 7 (nVal::32 word) p out) \<Longrightarrow>
         fst (snd (ReadVarUInt_loop ControlTypeVerboseErrorTrue buf e (Suc p) 7 nVal p out)) \<le> e"
      by (rule ReadVarUInt_loop_bounded) simp
    show ?thesis
    proof (cases "(ucast (byte_at buf p) :: 32 word) AND 128 = 0")
      case True
      then show ?thesis using a \<open>p < e\<close>
        by (auto simp: ReadVarUInt32_def ReadVarUInt_def Let_def)
    next
      case False
      then have eq: "ReadVarUInt_loop ControlTypeVerboseErrorTrue buf e (Suc p) 7
                       (ucast (byte_at buf p) AND 127) p out = (True, p', n)"
        using a \<open>p < e\<close> by (simp add: ReadVarUInt32_def ReadVarUInt_def Let_def)
      from L[of "ucast (byte_at buf p) AND 127"] eq show ?thesis by simp
    qed
  qed
qed


lemma skip_field_shape:
  "skip_field e j t = (True, t') \<Longrightarrow>
     t' = t\<lparr>m_pabyIterVals := m_pabyIterVals t', m_iAccNullable := m_iAccNullable t'\<rparr>"
  by (auto simp: skip_field_def Let_def split: prod.splits if_splits)

lemma skip_field_frame:
  "skip_field e j (t\<lparr>m_nLastCol := l, m_sCurField := x\<rparr>) =
     (fst (skip_field e j t), (snd (skip_field e j t))\<lparr>m_nLastCol := l, m_sCurField := x\<rparr>)"
  by (simp add: skip_field_def Let_def split: prod.splits)

lemma remaining_u32_eq: "p \<le> e \<Longrightarrow> e < 2 ^ 32 \<Longrightarrow> remaining_u32 e p = e - p"
  by (simp add: remaining_u32_def nat_diff_distrib' of_nat_diff)

lemma skip_length_bounded:
  "skip_length f buf p e = (True, p', n) \<Longrightarrow> p \<le> e \<Longrightarrow> p' \<le> e"
  by (auto simp: skip_length_def split: FileGDBFieldType.splits if_splits
           dest: ReadVarUInt32_bounded)

lemma skip_field_bound:
  assumes "skip_field e j t = (True, t')" and "m_pabyIterVals t \<le> e" and "e < 2 ^ 32"
  shows "m_pabyIterVals t' \<le> e"
proof -
  let ?f = "m_apoFields t ! j"
  show ?thesis
  proof (cases "m_bNullable ?f \<and> TEST_BIT (m_abyBuffer t) (m_iAccNullable t)")
    case True
    then show ?thesis using assms by (auto simp: skip_field_def Let_def)
  next
    case False
    obtain ok p' n where sl: "skip_length ?f (m_abyBuffer t) (m_pabyIterVals t) e = (ok, p', n)"
      by (cases "skip_length ?f (m_abyBuffer t) (m_pabyIterVals t) e") auto
    from assms(1) False sl have ok: "ok" and le: "unat n \<le> remaining_u32 e p'"
      and it: "m_pabyIterVals t' = p' + unat n"
      by (auto simp: skip_field_def Let_def split: if_splits)
    from sl ok assms(2) have "p' \<le> e" by (auto dest: skip_length_bounded)
    with le assms(3) it show ?thesis by (simp add: remaining_u32_eq)
  qed
qed

lemma read_value_frame:
  assumes "m_eType f \<noteq> FGFT_UNDEFINED"
  shows "fst (read_value f e (t\<lparr>m_sCurField := x\<rparr>)) = fst (read_value f e t) \<and>
         (snd (read_value f e (t\<lparr>m_sCurField := x\<rparr>)))\<lparr>m_sCurField := z\<rparr> =
         (snd (read_value f e t))\<lparr>m_sCurField := z\<rparr>"
  using assms
  by (cases "m_eType f")
     (simp_all add: read_value_def Let_def fixed_field_def varlen_field_def field_error_def
               split: prod.splits)

lemma read_field_frame:
  assumes "m_eType (m_apoFields t ! c) \<noteq> FGFT_UNDEFINED"
  shows "fst (read_field e c (t\<lparr>m_sCurField := x\<rparr>)) = fst (read_field e c t) \<and>
         (snd (read_field e c (t\<lparr>m_sCurField := x\<rparr>)))\<lparr>m_sCurField := z\<rparr> =
         (snd (read_field e c t))\<lparr>m_sCurField := z\<rparr>"
proof -
  let ?f = "m_apoFields t ! c"
  note a = read_value_frame[OF assms, where e = e and t = t and x = x and z = z]
  note b = read_value_frame[OF assms, where e = e and t = "t\<lparr>m_iAccNullable := m_iAccNullable t + 1\<rparr>" and x = x and z = z]
  have sw: "t\<lparr>m_iAccNullable := Suc (m_iAccNullable t), m_sCurField := x\<rparr> =
            t\<lparr>m_sCurField := x, m_iAccNullable := Suc (m_iAccNullable t)\<rparr>"
    by simp
  show ?thesis using a b by (simp add: read_field_def Let_def sw)
qed

lemma skip_fields_shape:
  "skip_fields e js t = (True, t') \<Longrightarrow>
     t' = t\<lparr>m_pabyIterVals := m_pabyIterVals t', m_iAccNullable := m_iAccNullable t'\<rparr>"
proof (induction js arbitrary: t)
  case Nil
  then show ?case by simp
next
  case (Cons j js)
  obtain ok u where s: "skip_field e j t = (ok, u)" by (cases "skip_field e j t") auto
  with Cons.prems have ok: "ok" and r: "skip_fields e js u = (True, t')"
    by (auto split: bool.splits)
  from s ok have s': "skip_field e j t = (True, u)" by simp
  have u: "u = t\<lparr>m_pabyIterVals := m_pabyIterVals u, m_iAccNullable := m_iAccNullable u\<rparr>"
    by (rule skip_field_shape[OF s'])
  from Cons.IH[OF r] have "t' = u\<lparr>m_pabyIterVals := m_pabyIterVals t', m_iAccNullable := m_iAccNullable t'\<rparr>" .
  then show ?case by (subst (asm) u) simp
qed

lemma skip_fields_frame:
  "skip_fields e js (t\<lparr>m_nLastCol := l, m_sCurField := x\<rparr>) =
     (fst (skip_fields e js t), (snd (skip_fields e js t))\<lparr>m_nLastCol := l, m_sCurField := x\<rparr>)"
proof (induction js arbitrary: t)
  case Nil
  then show ?case by simp
next
  case (Cons j js)
  show ?case
    by (cases "skip_field e j t") (auto simp: skip_field_frame Cons.IH split: bool.splits)
qed

lemma skip_fields_bound:
  "skip_fields e js t = (True, t') \<Longrightarrow> m_pabyIterVals t \<le> e \<Longrightarrow> e < 2 ^ 32 \<Longrightarrow>
     m_pabyIterVals t' \<le> e"
proof (induction js arbitrary: t)
  case Nil
  then show ?case by simp
next
  case (Cons j js)
  obtain ok u where s: "skip_field e j t = (ok, u)" by (cases "skip_field e j t") auto
  with Cons.prems have ok: "ok" and r: "skip_fields e js u = (True, t')"
    by (auto split: bool.splits)
  from s ok have s': "skip_field e j t = (True, u)" by simp
  have "m_pabyIterVals u \<le> e"
    by (rule skip_field_bound[OF s' Cons.prems(2,3)])
  from Cons.IH[OF r this Cons.prems(3)] show ?case .
qed

lemma skip_fields_append:
  "skip_fields e (xs @ ys) t =
     (case skip_fields e xs t of (False, t') \<Rightarrow> (False, t') | (True, t') \<Rightarrow> skip_fields e ys t')"
  by (induction xs arbitrary: t) (auto split: prod.splits bool.splits)


lemma list_update_byte_at [simp]: "xs[p := byte_at xs p] = xs"
  by (cases "p < length xs") (simp_all add: byte_at_def list_update_beyond)

lemma skip_length_layout:
  "skip_length f buf p e =
     (case field_layout f of
        LayoutNone \<Rightarrow> (True, p, 0)
      | LayoutFixed n \<Rightarrow> (True, p, of_nat n)
      | LayoutVarlen \<Rightarrow> ReadVarUInt32 buf p e 0)"
  by (cases "m_eType f") (simp_all add: skip_length_def field_layout_def)

lemma read_value_layout:
  assumes "m_eType f \<noteq> FGFT_UNDEFINED"
  shows "(case field_layout f of
            LayoutNone \<Rightarrow> read_value f e t = (RetNull, t)
          | LayoutFixed n \<Rightarrow> n < 2 ^ 32 \<and> (\<exists>v. read_value f e t = fixed_field e n v t)
          | LayoutVarlen \<Rightarrow> (\<exists>b how. read_value f e t = varlen_field e b how t))"
  using assms
  by (cases "m_eType f") (auto simp: read_value_def field_layout_def Let_def)

lemma fixed_field_ok:
  "fixed_field e n v t = (r, t') \<Longrightarrow> r \<noteq> RetError \<Longrightarrow>
     m_pabyIterVals t + n \<le> e \<and>
     t' = t\<lparr>m_sCurField := v, m_pabyIterVals := m_pabyIterVals t + n\<rparr>"
  by (auto simp: fixed_field_def field_error_def split: if_splits)

lemma restore_clean: "m_nChSaved t = - 1 \<Longrightarrow> GetFieldValue_restore t = t"
  by (simp add: GetFieldValue_restore_def)

lemma restore_terminated:
  assumes "m_nChSaved t = - 1"
  shows "GetFieldValue_restore
           (t\<lparr>m_sCurField := v, m_pabyIterVals := p,
              m_nChSaved := uint (byte_at (m_abyBuffer t) p),
              m_abyBuffer := (m_abyBuffer t)[p := 0]\<rparr>) =
         t\<lparr>m_pabyIterVals := p, m_sCurField := v\<rparr>"
  using assms by (cases t) (simp add: GetFieldValue_restore_def)

lemma varlen_field_ok:
  assumes "varlen_field e b how t = (r, t')" and "r \<noteq> RetError" and "m_nChSaved t = - 1"
  shows "\<exists>p' n. ReadVarUInt32 (m_abyBuffer t) (m_pabyIterVals t) e 0 = (True, p', n) \<and>
           unat n \<le> remaining_u32 e p' \<and> m_pabyIterVals t' = p' + unat n"
    and "GetFieldValue_restore t' =
           t\<lparr>m_pabyIterVals := m_pabyIterVals t', m_sCurField := m_sCurField t'\<rparr>"
proof -
  obtain ok p' n where rd: "ReadVarUInt32 (m_abyBuffer t) (m_pabyIterVals t) e 0 = (ok, p', n)"
    by (cases "ReadVarUInt32 (m_abyBuffer t) (m_pabyIterVals t) e 0") auto
  from assms(1,2) rd have ok: ok and le: "unat n \<le> remaining_u32 e p'"
    by (auto simp: varlen_field_def field_error_def split: if_splits)
  show "\<exists>p' n. ReadVarUInt32 (m_abyBuffer t) (m_pabyIterVals t) e 0 = (True, p', n) \<and>
           unat n \<le> remaining_u32 e p' \<and> m_pabyIterVals t' = p' + unat n"
    using assms(1) rd ok le by (auto simp: varlen_field_def Let_def split: if_splits)
  show "GetFieldValue_restore t' =
           t\<lparr>m_pabyIterVals := m_pabyIterVals t', m_sCurField := m_sCurField t'\<rparr>"
  proof (cases b)
    case True
    with assms(1) rd ok le have
      "t' = t\<lparr>m_sCurField := m_sCurField t', m_pabyIterVals := p' + unat n,
              m_nChSaved := uint (byte_at (m_abyBuffer t) (p' + unat n)),
              m_abyBuffer := (m_abyBuffer t)[p' + unat n := 0]\<rparr>"
      by (auto simp: varlen_field_def Let_def)
    then have "GetFieldValue_restore t' =
        t\<lparr>m_pabyIterVals := p' + unat n, m_sCurField := m_sCurField t'\<rparr>"
      using restore_terminated[OF assms(3)] by metis
    moreover have "m_pabyIterVals t' = p' + unat n"
      using assms(1) rd ok le True by (auto simp: varlen_field_def Let_def)
    ultimately show ?thesis by simp
  next
    case False
    with assms(1) rd ok le have
      t': "t' = t\<lparr>m_sCurField := m_sCurField t', m_pabyIterVals := m_pabyIterVals t'\<rparr>"
      by (auto simp: varlen_field_def Let_def)
    have "m_nChSaved t' = - 1" by (subst t') (simp add: assms(3))
    then have "GetFieldValue_restore t' = t'" by (rule restore_clean)
    then show ?thesis by (subst (asm) (2) t') simp
  qed
qed

lemma read_value_ok:
  assumes rv: "read_value f e t = (r, t')" and r: "r \<noteq> RetError"
    and ch: "m_nChSaved t = - 1" and le: "m_pabyIterVals t \<le> e" and e: "e < 2 ^ 32"
    and ty: "m_eType f \<noteq> FGFT_UNDEFINED"
  shows "\<exists>p' n. skip_length f (m_abyBuffer t) (m_pabyIterVals t) e = (True, p', n) \<and>
           unat n \<le> remaining_u32 e p' \<and> m_pabyIterVals t' = p' + unat n"
    and "GetFieldValue_restore t' =
           t\<lparr>m_pabyIterVals := m_pabyIterVals t', m_sCurField := m_sCurField t'\<rparr>"
    and "m_iAccNullable t' = m_iAccNullable t"
proof -
  note lay = read_value_layout[OF ty, where e = e and t = t]
  have "(\<exists>p' n. skip_length f (m_abyBuffer t) (m_pabyIterVals t) e = (True, p', n) \<and>
           unat n \<le> remaining_u32 e p' \<and> m_pabyIterVals t' = p' + unat n) \<and>
        GetFieldValue_restore t' =
           t\<lparr>m_pabyIterVals := m_pabyIterVals t', m_sCurField := m_sCurField t'\<rparr>"
  proof (cases "field_layout f")
    case LayoutNone
    with lay rv have "t' = t" by simp
    then show ?thesis using LayoutNone ch by (simp add: skip_length_layout restore_clean)
  next
    case (LayoutFixed k)
    with lay obtain v where k: "k < 2 ^ 32" and rf: "read_value f e t = fixed_field e k v t"
      by auto
    from rv rf have ff: "fixed_field e k v t = (r, t')" by simp
    note ok = fixed_field_ok[OF ff r]
    from ok have t': "t' = t\<lparr>m_sCurField := v, m_pabyIterVals := m_pabyIterVals t + k\<rparr>"
      by simp
    have uk: "unat (of_nat k :: 32 word) = k" using k by (simp add: unsigned_of_nat take_bit_nat_eq_self)
    have ch': "m_nChSaved t' = - 1" by (subst t') (simp add: ch)
    have "GetFieldValue_restore t' = t'" by (rule restore_clean[OF ch'])
    then have "GetFieldValue_restore t' =
           t\<lparr>m_pabyIterVals := m_pabyIterVals t', m_sCurField := m_sCurField t'\<rparr>"
      by (subst (asm) (2) t') (simp add: t')
    moreover have "k \<le> remaining_u32 e (m_pabyIterVals t)"
      using ok[THEN conjunct1] le e by (simp add: remaining_u32_eq)
    moreover have "m_pabyIterVals t' = m_pabyIterVals t + k" by (subst t') simp
    ultimately show ?thesis using LayoutFixed uk by (simp add: skip_length_layout)
  next
    case LayoutVarlen
    with lay obtain b how where rf: "read_value f e t = varlen_field e b how t" by auto
    from rv rf have vf: "varlen_field e b how t = (r, t')" by simp
    from varlen_field_ok[OF vf r ch] LayoutVarlen show ?thesis
      by (simp add: skip_length_layout)
  qed
  then show "\<exists>p' n. skip_length f (m_abyBuffer t) (m_pabyIterVals t) e = (True, p', n) \<and>
           unat n \<le> remaining_u32 e p' \<and> m_pabyIterVals t' = p' + unat n"
    and R: "GetFieldValue_restore t' =
           t\<lparr>m_pabyIterVals := m_pabyIterVals t', m_sCurField := m_sCurField t'\<rparr>"
    by blast+
  have "m_iAccNullable (GetFieldValue_restore t') = m_iAccNullable t'"
    by (simp add: GetFieldValue_restore_def)
  then show "m_iAccNullable t' = m_iAccNullable t" by (simp add: R)
qed

lemma read_field_ok:
  assumes rf: "read_field e c t = (r, t')" and r: "r \<noteq> RetError"
    and ch: "m_nChSaved t = - 1" and le: "m_pabyIterVals t \<le> e" and e: "e < 2 ^ 32"
    and ty: "m_eType (m_apoFields t ! c) \<noteq> FGFT_UNDEFINED"
  shows "skip_field e c t =
           (True, t\<lparr>m_pabyIterVals := m_pabyIterVals t', m_iAccNullable := m_iAccNullable t'\<rparr>)"
    and "GetFieldValue_restore t' =
           t\<lparr>m_pabyIterVals := m_pabyIterVals t', m_iAccNullable := m_iAccNullable t',
             m_sCurField := m_sCurField t'\<rparr>"
proof -
  let ?f = "m_apoFields t ! c"
  have "skip_field e c t =
           (True, t\<lparr>m_pabyIterVals := m_pabyIterVals t', m_iAccNullable := m_iAccNullable t'\<rparr>) \<and>
        GetFieldValue_restore t' =
           t\<lparr>m_pabyIterVals := m_pabyIterVals t', m_iAccNullable := m_iAccNullable t',
             m_sCurField := m_sCurField t'\<rparr>"
  proof (cases "m_bNullable ?f \<and> TEST_BIT (m_abyBuffer t) (m_iAccNullable t)")
    case True
    with rf have t': "t' = t\<lparr>m_iAccNullable := m_iAccNullable t + 1\<rparr>"
      by (simp add: read_field_def)
    have "GetFieldValue_restore t' = t'" by (rule restore_clean) (simp add: t' ch)
    then show ?thesis using True by (simp add: skip_field_def t')
  next
    case False
    define t1 where "t1 = (if m_bNullable ?f then t\<lparr>m_iAccNullable := m_iAccNullable t + 1\<rparr> else t)"
    from rf False have rv: "read_value ?f e t1 = (r, t')"
      by (simp add: read_field_def t1_def Let_def)
    have ch1: "m_nChSaved t1 = - 1" and le1: "m_pabyIterVals t1 \<le> e"
      and b1: "m_abyBuffer t1 = m_abyBuffer t" and p1: "m_pabyIterVals t1 = m_pabyIterVals t"
      using ch le by (simp_all add: t1_def)
    from read_value_ok(1)[OF rv r ch1 le1 e ty] obtain p' n where
      sl: "skip_length ?f (m_abyBuffer t) (m_pabyIterVals t) e = (True, p', n)"
      and n: "unat n \<le> remaining_u32 e p'" and it: "m_pabyIterVals t' = p' + unat n"
      by (auto simp: b1 p1)
    note R = read_value_ok(2)[OF rv r ch1 le1 e ty]
    note A = read_value_ok(3)[OF rv r ch1 le1 e ty]
    have S: "skip_field e c t = (True, t1\<lparr>m_pabyIterVals := m_pabyIterVals t'\<rparr>)"
      using False sl n it by (simp add: skip_field_def Let_def t1_def)
    have t1: "t1 = t\<lparr>m_iAccNullable := m_iAccNullable t'\<rparr>"
      using A by (simp add: t1_def split: if_splits)
    show ?thesis unfolding S R by ((subst t1)+) simp
  qed
  then show "skip_field e c t =
           (True, t\<lparr>m_pabyIterVals := m_pabyIterVals t', m_iAccNullable := m_iAccNullable t'\<rparr>)"
    and "GetFieldValue_restore t' =
           t\<lparr>m_pabyIterVals := m_pabyIterVals t', m_iAccNullable := m_iAccNullable t',
             m_sCurField := m_sCurField t'\<rparr>"
    by blast+
qed

lemma restore_sel [simp]:
  "m_nCurRow (GetFieldValue_restore t) = m_nCurRow t"
  "m_apoFields (GetFieldValue_restore t) = m_apoFields t"
  "m_nRowBlobLength (GetFieldValue_restore t) = m_nRowBlobLength t"
  "m_bError (GetFieldValue_restore t) = m_bError t"
  "m_nLastCol (GetFieldValue_restore t) = m_nLastCol t"
  "m_pabyIterVals (GetFieldValue_restore t) = m_pabyIterVals t"
  "m_iAccNullable (GetFieldValue_restore t) = m_iAccNullable t"
  "m_sCurField (GetFieldValue_restore t) = m_sCurField t"
  by (simp_all add: GetFieldValue_restore_def)

lemma cur_last_swap:
  "t\<lparr>m_sCurField := x, m_nLastCol := c\<rparr> = t\<lparr>m_nLastCol := c, m_sCurField := x\<rparr>"
  by simp

lemma GetFieldValue_from:
  assumes sel: "row_selected t0"
    and c0: "0 \<le> c" and cn: "c < int (length (m_apoFields t0))"
    and tr: "GetFieldValue_restore t =
               t0\<lparr>m_nLastCol := l, m_pabyIterVals := p, m_iAccNullable := a, m_sCurField := x\<rparr>"
    and nerr: "\<not> m_bError t"
    and l: "- 1 \<le> l"
    and sk: "skip_fields (unat (m_nRowBlobLength t0)) [0..<nat (l + 1)] t0 =
               (True, t0\<lparr>m_pabyIterVals := p, m_iAccNullable := a\<rparr>)"
  shows "GetFieldValue c t =
           (case skip_fields (unat (m_nRowBlobLength t0)) [0..<nat c] t0 of
              (False, u) \<Rightarrow>
                (RetError, u\<lparr>m_nLastCol := (if c \<le> l then - 1 else l), m_sCurField := x\<rparr>)
            | (True, u) \<Rightarrow>
                read_field (unat (m_nRowBlobLength t0)) (nat c)
                  (u\<lparr>m_nLastCol := c, m_sCurField := x\<rparr>))"
proof -
  let ?e = "unat (m_nRowBlobLength t0)"
  have "m_nCurRow (GetFieldValue_restore t) = m_nCurRow t0"
    and "m_apoFields (GetFieldValue_restore t) = m_apoFields t0"
    and "m_nRowBlobLength (GetFieldValue_restore t) = m_nRowBlobLength t0"
    by (simp_all only: tr) simp_all
  then have cr: "m_nCurRow t = m_nCurRow t0" and fl: "m_apoFields t = m_apoFields t0"
    and bl: "m_nRowBlobLength t = m_nRowBlobLength t0"
    by simp_all
  from sel have row: "\<not> m_nCurRow t0 < 0" by (simp add: row_selected_def)
  have G: "GetFieldValue c t =
      (case skip_fields ?e
              [nat (m_nLastCol (GetFieldValue_rewind c (GetFieldValue_restore t)) + 1)..<nat c]
              (GetFieldValue_rewind c (GetFieldValue_restore t)) of
            (False, t3) \<Rightarrow> (RetError, t3)
          | (True, t3) \<Rightarrow> read_field ?e (nat c) (t3\<lparr>m_nLastCol := c\<rparr>))"
    using row c0 cn nerr by (simp add: GetFieldValue_def cr fl bl Let_def)
  show ?thesis
  proof (cases "c \<le> l")
    case True
    have t2: "GetFieldValue_rewind c (GetFieldValue_restore t) =
                t0\<lparr>m_nLastCol := - 1, m_sCurField := x\<rparr>"
      using sel True by (cases t0) (simp add: GetFieldValue_rewind_def tr row_selected_def)
    show ?thesis
      unfolding G t2 using True
      by (cases "skip_fields ?e [0..<nat c] t0")
         (simp add: skip_fields_frame cur_last_swap split: bool.splits)
  next
    case False
    have t2: "GetFieldValue_rewind c (GetFieldValue_restore t) =
                (t0\<lparr>m_pabyIterVals := p, m_iAccNullable := a\<rparr>)\<lparr>m_nLastCol := l, m_sCurField := x\<rparr>"
      using False by (simp add: GetFieldValue_rewind_def tr)
    from False l have le: "nat (l + 1) \<le> nat c" by simp
    have "[0..<nat c] = [0..<nat (l + 1)] @ [nat (l + 1)..<nat c]"
      using upt_add_eq_append[of 0 "nat (l + 1)" "nat c - nat (l + 1)"] le by simp
    then have A: "skip_fields ?e [0..<nat c] t0 =
        skip_fields ?e [nat (l + 1)..<nat c] (t0\<lparr>m_pabyIterVals := p, m_iAccNullable := a\<rparr>)"
      by (simp add: skip_fields_append sk)
    show ?thesis
      unfolding G t2 A using False
      by (cases "skip_fields ?e [nat (l + 1)..<nat c] (t0\<lparr>m_pabyIterVals := p, m_iAccNullable := a\<rparr>)")
         (simp add: skip_fields_frame cur_last_swap split: bool.splits)
  qed
qed

lemma cursor_at_start: "row_selected t0 \<Longrightarrow> cursor_at t0 t0"
  by (simp add: cursor_at_def row_selected_def restore_clean)

lemma GetFieldValue_out_of_range:
  "c < 0 \<or> int (length (m_apoFields t)) \<le> c \<Longrightarrow> GetFieldValue c t = (RetError, t)"
  by (auto simp: GetFieldValue_def)

lemma cursor_at_sel:
  assumes "cursor_at t0 t"
  shows "m_apoFields t = m_apoFields t0"
proof -
  from assms have tr: "GetFieldValue_restore t =
       t0\<lparr>m_nLastCol := m_nLastCol t, m_pabyIterVals := m_pabyIterVals t,
          m_iAccNullable := m_iAccNullable t, m_sCurField := m_sCurField t\<rparr>"
    by (simp add: cursor_at_def)
  have "m_apoFields (GetFieldValue_restore t) = m_apoFields t0" by (simp only: tr) simp
  then show ?thesis by simp
qed

lemma GetFieldValue_step:
  assumes sel: "row_selected t0" and cur: "cursor_at t0 t"
    and c0: "0 \<le> c" and cn: "c < int (length (m_apoFields t0))"
  shows "fst (GetFieldValue c t) = fst (GetFieldValue c t0) \<and>
         (fst (GetFieldValue c t0) \<noteq> RetError \<longrightarrow> cursor_at t0 (snd (GetFieldValue c t)))"
proof -
  let ?e = "unat (m_nRowBlobLength t0)"
  have "?e < 2 ^ LENGTH(32)" by (rule unsigned_less)
  then have e: "?e < 2 ^ 32" by simp
  from cur have tr: "GetFieldValue_restore t =
       t0\<lparr>m_nLastCol := m_nLastCol t, m_pabyIterVals := m_pabyIterVals t,
          m_iAccNullable := m_iAccNullable t, m_sCurField := m_sCurField t\<rparr>"
    and nerr: "\<not> m_bError t" and l: "- 1 \<le> m_nLastCol t"
    and sk: "skip_fields ?e [0..<nat (m_nLastCol t + 1)] t0 =
       (True, t0\<lparr>m_pabyIterVals := m_pabyIterVals t, m_iAccNullable := m_iAccNullable t\<rparr>)"
    by (simp_all add: cursor_at_def)
  note G = GetFieldValue_from[OF sel c0 cn tr nerr l sk]
  from cursor_at_start[OF sel] have tr0: "GetFieldValue_restore t0 =
       t0\<lparr>m_nLastCol := m_nLastCol t0, m_pabyIterVals := m_pabyIterVals t0,
          m_iAccNullable := m_iAccNullable t0, m_sCurField := m_sCurField t0\<rparr>"
    and nerr0: "\<not> m_bError t0" and l0: "- 1 \<le> m_nLastCol t0"
    and sk0: "skip_fields ?e [0..<nat (m_nLastCol t0 + 1)] t0 =
       (True, t0\<lparr>m_pabyIterVals := m_pabyIterVals t0, m_iAccNullable := m_iAccNullable t0\<rparr>)"
    by (simp_all add: cursor_at_def)
  note G0 = GetFieldValue_from[OF sel c0 cn tr0 nerr0 l0 sk0]
  from sel have ch0: "m_nChSaved t0 = - 1" and err0: "\<not> m_bError t0"
    and it0: "m_pabyIterVals t0 \<le> ?e"
    and ty0: "list_all (\<lambda>f. m_eType f \<noteq> FGFT_UNDEFINED) (m_apoFields t0)"
    by (simp_all add: row_selected_def)
  obtain ok u where su: "skip_fields ?e [0..<nat c] t0 = (ok, u)"
    by (cases "skip_fields ?e [0..<nat c] t0") auto
  show ?thesis
  proof (cases ok)
    case False
    with su G G0 show ?thesis by simp
  next
    case True
    with su have su': "skip_fields ?e [0..<nat c] t0 = (True, u)" by simp
    have ushape: "u = t0\<lparr>m_pabyIterVals := m_pabyIterVals u, m_iAccNullable := m_iAccNullable u\<rparr>"
      by (rule skip_fields_shape[OF su'])
    have ubound: "m_pabyIterVals u \<le> ?e" by (rule skip_fields_bound[OF su' it0 e])
    define v where "v = u\<lparr>m_nLastCol := c\<rparr>"
    define w where "w = v\<lparr>m_sCurField := m_sCurField t\<rparr>"
    have fu: "m_apoFields u = m_apoFields t0" and chu: "m_nChSaved u = - 1"
      and eu: "m_bError u = m_bError t0"
      by (subst ushape, simp add: ch0)+
    have ty: "m_eType (m_apoFields v ! nat c) \<noteq> FGFT_UNDEFINED"
      using ty0 c0 cn by (simp add: v_def fu list_all_length)
    have tyw: "m_eType (m_apoFields w ! nat c) \<noteq> FGFT_UNDEFINED"
      using ty by (simp add: w_def)
    have Gt: "GetFieldValue c t = read_field ?e (nat c) w"
      using G su' by (simp add: w_def v_def)
    have Gt0: "GetFieldValue c t0 = read_field ?e (nat c) (v\<lparr>m_sCurField := m_sCurField t0\<rparr>)"
      using G0 su' by (simp add: v_def)
    have F1: "fst (read_field ?e (nat c) w) = fst (read_field ?e (nat c) v)"
      unfolding w_def using read_field_frame[OF ty] by blast
    have F2: "fst (read_field ?e (nat c) (v\<lparr>m_sCurField := m_sCurField t0\<rparr>)) =
              fst (read_field ?e (nat c) v)"
      using read_field_frame[OF ty] by blast
    have eq: "fst (GetFieldValue c t) = fst (GetFieldValue c t0)"
      by (simp add: Gt Gt0 F1 F2)
    have inv: "cursor_at t0 (snd (GetFieldValue c t))" if ne: "fst (GetFieldValue c t0) \<noteq> RetError"
    proof -
      obtain r w' where rf: "read_field ?e (nat c) w = (r, w')"
        by (cases "read_field ?e (nat c) w") auto
      from ne eq Gt rf have r: "r \<noteq> RetError" by simp
      have chw: "m_nChSaved w = - 1" and lew: "m_pabyIterVals w \<le> ?e"
        using chu ubound by (simp_all add: w_def v_def)
      note SF = read_field_ok(1)[OF rf r chw lew e tyw]
      note RS = read_field_ok(2)[OF rf r chw lew e tyw]
      have wt0: "w = t0\<lparr>m_pabyIterVals := m_pabyIterVals u, m_iAccNullable := m_iAccNullable u,
                        m_nLastCol := c, m_sCurField := m_sCurField t\<rparr>"
        unfolding w_def v_def by (subst ushape) simp
      have RS': "GetFieldValue_restore w' =
          t0\<lparr>m_nLastCol := c, m_pabyIterVals := m_pabyIterVals w',
             m_iAccNullable := m_iAccNullable w', m_sCurField := m_sCurField w'\<rparr>"
        unfolding RS by (subst wt0) simp
      have "m_bError (GetFieldValue_restore w') = False"
        and "m_nLastCol (GetFieldValue_restore w') = c"
        by (simp_all only: RS') (simp_all add: err0)
      then have errw: "\<not> m_bError w'" and lw: "m_nLastCol w' = c" by simp_all
      have "m_pabyIterVals (w\<lparr>m_pabyIterVals := m_pabyIterVals w',
                               m_iAccNullable := m_iAccNullable w'\<rparr>) \<le> ?e"
        by (rule skip_field_bound[OF SF lew e])
      then have bw: "m_pabyIterVals w' \<le> ?e" by simp
      have wu: "w = u\<lparr>m_nLastCol := c, m_sCurField := m_sCurField t\<rparr>"
        by (simp add: w_def v_def)
      obtain ok2 u2 where s2: "skip_field ?e (nat c) u = (ok2, u2)"
        by (cases "skip_field ?e (nat c) u") auto
      from SF have "(ok2, u2\<lparr>m_nLastCol := c, m_sCurField := m_sCurField t\<rparr>) =
           (True, w\<lparr>m_pabyIterVals := m_pabyIterVals w', m_iAccNullable := m_iAccNullable w'\<rparr>)"
        unfolding wu skip_field_frame s2 by simp
      then have ok2: ok2
        and u2w: "u2\<lparr>m_nLastCol := c, m_sCurField := m_sCurField t\<rparr> =
           w\<lparr>m_pabyIterVals := m_pabyIterVals w', m_iAccNullable := m_iAccNullable w'\<rparr>"
        by simp_all
      have "m_pabyIterVals (u2\<lparr>m_nLastCol := c, m_sCurField := m_sCurField t\<rparr>) = m_pabyIterVals w'"
        and "m_iAccNullable (u2\<lparr>m_nLastCol := c, m_sCurField := m_sCurField t\<rparr>) = m_iAccNullable w'"
        by (simp_all only: u2w) simp_all
      then have pu2: "m_pabyIterVals u2 = m_pabyIterVals w'"
        and au2: "m_iAccNullable u2 = m_iAccNullable w'" by simp_all
      from s2 ok2 have s2': "skip_field ?e (nat c) u = (True, u2)" by simp
      have "u2 = u\<lparr>m_pabyIterVals := m_pabyIterVals u2, m_iAccNullable := m_iAccNullable u2\<rparr>"
        by (rule skip_field_shape[OF s2'])
      then have u2: "u2 = t0\<lparr>m_pabyIterVals := m_pabyIterVals w', m_iAccNullable := m_iAccNullable w'\<rparr>"
        unfolding pu2 au2 by (subst (asm) ushape) simp
      have "[0..<nat (c + 1)] = [0..<nat c] @ [nat c]"
        using c0 by (simp add: nat_add_distrib)
      then have SK: "skip_fields ?e [0..<nat (c + 1)] t0 =
          (True, t0\<lparr>m_pabyIterVals := m_pabyIterVals w', m_iAccNullable := m_iAccNullable w'\<rparr>)"
        using su' s2' u2 by (simp add: skip_fields_append)
      have "cursor_at t0 w'"
        unfolding cursor_at_def lw using errw bw c0 cn RS' SK by simp
      then show ?thesis by (simp add: Gt rf)
    qed
    from eq inv show ?thesis by blast
  qed
qed

lemma read_columns_cursor:
  assumes sel: "row_selected t0" and wf: "row_well_formed t0"
  shows "cursor_at t0 t \<Longrightarrow> cursor_at t0 (read_columns cols t)"
proof (induction cols arbitrary: t)
  case Nil
  then show ?case by (simp add: read_columns_def)
next
  case (Cons c cols)
  have step: "cursor_at t0 (snd (GetFieldValue c t))"
  proof (cases "0 \<le> c \<and> c < int (length (m_apoFields t0))")
    case True
    then have n: "nat c < length (m_apoFields t0)" by linarith
    from wf have "\<forall>n<length (m_apoFields t0). fst (GetFieldValue (int n) t0) \<noteq> RetError"
      by (simp add: row_well_formed_def list_all_length)
    then have "fst (GetFieldValue (int (nat c)) t0) \<noteq> RetError"
      using n by blast
    with True have "fst (GetFieldValue c t0) \<noteq> RetError" by simp
    with GetFieldValue_step[OF sel Cons.prems] True show ?thesis by blast
  next
    case False
    then have "c < 0 \<or> int (length (m_apoFields t)) \<le> c"
      by (auto simp: cursor_at_sel[OF Cons.prems])
    then show ?thesis using Cons.prems by (simp add: GetFieldValue_out_of_range)
  qed
  have "read_columns (c # cols) t = read_columns cols (snd (GetFieldValue c t))"
    by (simp add: read_columns_def)
  then show ?case using Cons.IH[OF step] by simp
qed

text \<open>
  C9: in a row just selected, all of whose columns decode without error, \<open>GetFieldValue\<close>
  returns for every column index \<open>c\<close> (in range or not) the same result after any
  sequence \<open>cols\<close> of earlier \<open>GetFieldValue\<close> calls as it returns on the fresh selection,
  where it walks the columns \<open>0..c\<close> from the start of the row. The result is the error
  value, null, or the value stored in \<open>m_sCurField\<close>.
\<close>

theorem GetFieldValue_access_order_independent:
  assumes "row_selected t" and "row_well_formed t"
  shows "fst (GetFieldValue c (read_columns cols t)) = fst (GetFieldValue c t)"
proof -
  have cur: "cursor_at t (read_columns cols t)"
    by (rule read_columns_cursor[OF assms cursor_at_start[OF assms(1)]])
  show ?thesis
  proof (cases "0 \<le> c \<and> c < int (length (m_apoFields t))")
    case True
    with GetFieldValue_step[OF assms(1) cur] show ?thesis by blast
  next
    case False
    then have "c < 0 \<or> int (length (m_apoFields t)) \<le> c" by auto
    moreover then have "c < 0 \<or> int (length (m_apoFields (read_columns cols t))) \<le> c"
      by (simp add: cursor_at_sel[OF cur])
    ultimately show ?thesis by (simp add: GetFieldValue_out_of_range)
  qed
qed

theorem GetFieldValue_access_order_independent_witness:
  "row_selected (snd (SelectRow False 0 example_table)) \<and>
   row_well_formed (snd (SelectRow False 0 example_table)) \<and>
   fst (GetFieldValue 1 (read_columns [1, 0] (snd (SelectRow False 0 example_table)))) =
     RetField (Field_String [0x41]) \<and>
   fst (GetFieldValue 0 (read_columns [1, 0, 1] (snd (SelectRow False 0 example_table)))) =
     RetField (Field_Integer 5)"
proof -
  let ?t = "snd (SelectRow False 0 example_table)"
  have sel: "row_selected ?t" by code_simp
  have wf: "row_well_formed ?t" by code_simp
  have v1: "fst (GetFieldValue 1 ?t) = RetField (Field_String [0x41])" by code_simp
  have v0: "fst (GetFieldValue 0 ?t) = RetField (Field_Integer 5)" by code_simp
  from GetFieldValue_access_order_independent[OF sel wf, of 1 "[1, 0]"]
       GetFieldValue_access_order_independent[OF sel wf, of 0 "[1, 0, 1]"]
       sel wf v1 v0
  show ?thesis by simp
qed








end
